theory Spec2Isabelle
  imports Main "HOL-Library.Word"
begin

section \<open>Data model\<close>

text \<open>
  The embedding follows \<open>data_arbiter_concurrency.c\<close>, compiled without
  \<open>LOCK_OR_DELEGATE\<close> (the macro is commented out in the file).

  Pointers are addresses: a handle, a job and an arbiter are natural numbers, and a
  pointer that may be NULL is an option. An assertion that fails and a NULL pointer
  that is dereferenced end the program: they are the two errors.

  Modelled from the spec: the structure of a handle is declared in
  \<open>datawizard/coherency.h\<close>, which is not among the sources. Its fields here are
  those the arbiter code reads and writes; the two counters are C \<open>unsigned\<close>, which
  the specification gives as 32 bits wide.
\<close>

type_synonym handle_ptr = nat
type_synonym job_ptr = nat
type_synonym arbiter_ptr = nat
type_synonym starpu_data_access_mode = nat

datatype error = Null_dereference | Assertion_failed

text \<open>
  A requester has the fields that the source assigns. The type of the list of
  requesters is generated by a macro of \<open>common/list.h\<close>, which is not among the
  sources; the list is a list whose first element is the head, and its operations are
  taken as their names say: \<open>push_front\<close> puts a requester before the head,
  \<open>begin\<close> is the head, \<open>_next\<close> moves towards the tail, \<open>erase\<close> takes one
  element out. A NULL list pointer is \<open>None\<close>.
\<close>

record starpu_data_requester =
  mode :: starpu_data_access_mode
  is_requested_by_codelet :: nat
  j :: job_ptr
  buffer_index :: nat
  ready_data_callback :: "nat option"
  argcb :: "nat option"

record starpu_data_state =
  refcnt :: "32 word"
  busy_count :: "32 word"
  current_mode :: starpu_data_access_mode
  arbiter :: "arbiter_ptr option"
  arbitered_req_list :: "starpu_data_requester list option"

text \<open>
  A job carries the number of buffers of its task and its array of ordered buffers;
  the array is memory, so it has a value at every index. The indices are C
  \<open>unsigned\<close>; they only count up to the number of buffers, so they are natural
  numbers here.
\<close>

record starpu_job =
  nbuffers :: nat
  ordered_buffers :: "nat \<Rightarrow> handle_ptr \<times> starpu_data_access_mode"

text \<open>
  The state is the memory the functions work on, the list of the tasks pushed to the
  scheduling policy, and the trace of the lock operations and pushes in the order in
  which they happen.
\<close>

datatype event =
    Mutex_lock arbiter_ptr
  | Mutex_unlock arbiter_ptr
  | Spin_lock handle_ptr
  | Spin_unlock handle_ptr
  | Push_task job_ptr

record state =
  handles :: "handle_ptr \<Rightarrow> starpu_data_state"
  jobs :: "job_ptr \<Rightarrow> starpu_job"
  pushed :: "job_ptr list"
  trace :: "event list"

definition JOB_GET_ORDERED_BUFFER_HANDLE :: "state \<Rightarrow> job_ptr \<Rightarrow> nat \<Rightarrow> handle_ptr" where
  "JOB_GET_ORDERED_BUFFER_HANDLE s jb i = fst (ordered_buffers (jobs s jb) i)"

definition JOB_GET_ORDERED_BUFFER_MODE :: "state \<Rightarrow> job_ptr \<Rightarrow> nat \<Rightarrow> starpu_data_access_mode" where
  "JOB_GET_ORDERED_BUFFER_MODE s jb i = snd (ordered_buffers (jobs s jb) i)"

definition log_events :: "event list \<Rightarrow> state \<Rightarrow> state" where
  "log_events es s = s\<lparr>trace := trace s @ es\<rparr>"

definition set_handle :: "handle_ptr \<Rightarrow> starpu_data_state \<Rightarrow> state \<Rightarrow> state" where
  "set_handle h d s = s\<lparr>handles := (handles s)(h := d)\<rparr>"

text \<open>
  Modelled from the spec: \<open>_starpu_push_task\<close> is defined in
  \<open>core/sched_policy.c\<close>, which is not among the sources. It is the
  \<open>push_ready\<close> of the specification: the job is handed to the scheduling policy.
\<close>

definition starpu_push_task :: "job_ptr \<Rightarrow> state \<Rightarrow> state" where
  "starpu_push_task jb s = s\<lparr>pushed := pushed s @ [jb], trace := trace s @ [Push_task jb]\<rparr>"

text \<open>
  \<open>already_requested\<close> is the test by which the loops skip a buffer whose handle is
  that of the buffer before it.
\<close>

definition already_requested :: "state \<Rightarrow> job_ptr \<Rightarrow> nat \<Rightarrow> bool" where
  "already_requested s jb i \<longleftrightarrow>
     i \<noteq> 0 \<and> JOB_GET_ORDERED_BUFFER_HANDLE s jb (i - 1) = JOB_GET_ORDERED_BUFFER_HANDLE s jb i"

text \<open>The handle structure that buffer \<open>i\<close> of a job points to.\<close>

definition buffer_handle :: "state \<Rightarrow> job_ptr \<Rightarrow> nat \<Rightarrow> starpu_data_state" where
  "buffer_handle s jb i = handles s (JOB_GET_ORDERED_BUFFER_HANDLE s jb i)"

text \<open>
  A critical section on the handle of buffer \<open>i\<close>: take its \<open>header_lock\<close>, change
  the handle, release the lock.
\<close>

definition with_header_lock ::
  "state \<Rightarrow> job_ptr \<Rightarrow> nat \<Rightarrow> (starpu_data_state \<Rightarrow> starpu_data_state) \<Rightarrow> state" where
  "with_header_lock s jb i f =
     (let handle = JOB_GET_ORDERED_BUFFER_HANDLE s jb i
      in log_events [Spin_lock handle, Spin_unlock handle]
           (set_handle handle (f (handles s handle)) s))"

section \<open>Critical sections on one handle\<close>

text \<open>
  Each definition is one critical section of the source, on the handle of buffer
  \<open>i\<close> of the job. \<open>take_reference\<close> is the successful branch of the first loop of
  \<open>_starpu_submit_job_enforce_arbitered_deps\<close>, \<open>lock_unlock\<close> a branch that only
  takes and releases the lock, \<open>drop_reference\<close> the body of the two loops that cancel
  what was taken, \<open>record_request\<close> the body of the loop that records the requesters
  (it creates the list if needed and stores the node with \<open>push_front\<close>),
  \<open>mark_taken\<close> the successful branch of the first loop of
  \<open>_starpu_notify_arbitered_dependencies\<close>.
\<close>

definition take_reference :: "state \<Rightarrow> job_ptr \<Rightarrow> nat \<Rightarrow> state" where
  "take_reference s jb i =
     with_header_lock s jb i
       (\<lambda>d. d\<lparr>refcnt := refcnt d + 1, busy_count := busy_count d + 1,
               current_mode := JOB_GET_ORDERED_BUFFER_MODE s jb i\<rparr>)"

definition lock_unlock :: "state \<Rightarrow> job_ptr \<Rightarrow> nat \<Rightarrow> state" where
  "lock_unlock s jb i = with_header_lock s jb i (\<lambda>d. d)"

definition drop_reference :: "state \<Rightarrow> job_ptr \<Rightarrow> nat \<Rightarrow> state" where
  "drop_reference s jb i = with_header_lock s jb i (\<lambda>d. d\<lparr>refcnt := refcnt d - 1\<rparr>)"

definition requester_new ::
  "starpu_data_access_mode \<Rightarrow> job_ptr \<Rightarrow> nat \<Rightarrow> starpu_data_requester" where
  "requester_new md jb i =
     \<lparr>mode = md, is_requested_by_codelet = 1, j = jb, buffer_index = i,
      ready_data_callback = None, argcb = None\<rparr>"

definition requester_list_push_front ::
  "starpu_data_requester list option \<Rightarrow> starpu_data_requester \<Rightarrow>
   starpu_data_requester list option" where
  "requester_list_push_front l r = (case l of None \<Rightarrow> Some [r] | Some rs \<Rightarrow> Some (r # rs))"

definition record_request :: "state \<Rightarrow> job_ptr \<Rightarrow> nat \<Rightarrow> nat \<Rightarrow> state" where
  "record_request s jb idx_buf_cancel idx_buf_arbiter =
     with_header_lock s jb idx_buf_cancel
       (\<lambda>d. d\<lparr>arbitered_req_list :=
                 requester_list_push_front (arbitered_req_list d)
                   (requester_new (JOB_GET_ORDERED_BUFFER_MODE s jb idx_buf_cancel)
                      jb idx_buf_cancel),
               busy_count := (if idx_buf_arbiter \<le> idx_buf_cancel
                              then busy_count d + 1 else busy_count d)\<rparr>)"

definition mark_taken :: "state \<Rightarrow> job_ptr \<Rightarrow> nat \<Rightarrow> state" where
  "mark_taken s jb i =
     with_header_lock s jb i
       (\<lambda>d. d\<lparr>refcnt := refcnt d + 1,
               current_mode := JOB_GET_ORDERED_BUFFER_MODE s jb i\<rparr>)"

section \<open>Submission\<close>

text \<open>
  The first loop of \<open>_starpu_submit_job_enforce_arbitered_deps\<close>. It returns the
  state, the final value of \<open>idx_buf_arbiter\<close> and \<open>all_arbiter_available\<close>.
\<close>

function try_acquire ::
  "state \<Rightarrow> job_ptr \<Rightarrow> arbiter_ptr \<Rightarrow> nat \<Rightarrow> nat \<Rightarrow> state \<times> nat \<times> bool" where
  "try_acquire s jb a idx_buf_arbiter nbuf =
     (if idx_buf_arbiter < nbuf then
        if already_requested s jb idx_buf_arbiter
        then try_acquire s jb a (idx_buf_arbiter + 1) nbuf
        else if arbiter (buffer_handle s jb idx_buf_arbiter) \<noteq> Some a
        then (s, idx_buf_arbiter, True)
        else if refcnt (buffer_handle s jb idx_buf_arbiter) = 0
        then try_acquire (take_reference s jb idx_buf_arbiter) jb a (idx_buf_arbiter + 1) nbuf
        else (lock_unlock s jb idx_buf_arbiter, idx_buf_arbiter, False)
      else (s, idx_buf_arbiter, True))"
  by pat_completeness auto
termination
  by (relation "measure (\<lambda>(s, jb, a, i, n). n - i)") auto

declare try_acquire.simps [simp del]

text \<open>
  The loop that drops the references taken by a failed pass. The submission path and
  the notification path contain the same loop, so both use this definition.
\<close>

function cancel_taken ::
  "state \<Rightarrow> job_ptr \<Rightarrow> arbiter_ptr \<Rightarrow> nat \<Rightarrow> nat \<Rightarrow> error + state" where
  "cancel_taken s jb a idx_buf_cancel idx_buf_arbiter =
     (if idx_buf_cancel < idx_buf_arbiter then
        if already_requested s jb idx_buf_cancel
        then cancel_taken s jb a (idx_buf_cancel + 1) idx_buf_arbiter
        else if arbiter (buffer_handle s jb idx_buf_cancel) \<noteq> Some a
        then Inr s
        else if refcnt (buffer_handle s jb idx_buf_cancel) \<noteq> 1
        then Inl Assertion_failed
        else cancel_taken (drop_reference s jb idx_buf_cancel) jb a
               (idx_buf_cancel + 1) idx_buf_arbiter
      else Inr s)"
  by pat_completeness auto
termination
  by (relation "measure (\<lambda>(s, jb, a, i, n). n - i)") auto

declare cancel_taken.simps [simp del]

text \<open>The loop that records the job on the list of requests of each handle.\<close>

function record_requests ::
  "state \<Rightarrow> job_ptr \<Rightarrow> arbiter_ptr \<Rightarrow> nat \<Rightarrow> nat \<Rightarrow> nat \<Rightarrow> state" where
  "record_requests s jb a idx_buf_cancel nbuf idx_buf_arbiter =
     (if idx_buf_cancel < nbuf then
        if arbiter (buffer_handle s jb idx_buf_cancel) \<noteq> Some a
        then s
        else record_requests (record_request s jb idx_buf_cancel idx_buf_arbiter) jb a
               (idx_buf_cancel + 1) nbuf idx_buf_arbiter
      else s)"
  by pat_completeness auto
termination
  by (relation "measure (\<lambda>(s, jb, a, i, n, k). n - i)") auto

declare record_requests.simps [simp del]

lemma try_acquire_index_mono:
  "try_acquire s jb a i n = (s', k, ok) \<Longrightarrow> i \<le> k"
proof (induction s jb a i n rule: try_acquire.induct)
  case (1 s jb a i n)
  from "1.prems" show ?case
    by (subst (asm) try_acquire.simps) (auto split: if_splits dest: "1.IH")
qed

lemma try_acquire_index_progress:
  assumes "try_acquire s jb a i n = (s', k, True)" and "i < n"
    and "arbiter (buffer_handle s jb i) = Some a"
  shows "i < k"
  using assms
  by (subst (asm) try_acquire.simps)
     (auto split: if_splits dest: try_acquire_index_mono)

lemma log_events_fields [simp]:
  "handles (log_events es s) = handles s"
  "jobs (log_events es s) = jobs s"
  "pushed (log_events es s) = pushed s"
  "trace (log_events es s) = trace s @ es"
  by (simp_all add: log_events_def)

text \<open>
  The whole of \<open>_starpu_submit_job_enforce_arbitered_deps\<close>: the result is the value
  the function returns, 1 when the job has been recorded and 0 when it has been pushed.
\<close>

function starpu_submit_job_enforce_arbitered_deps ::
  "state \<Rightarrow> job_ptr \<Rightarrow> nat \<Rightarrow> nat \<Rightarrow> error + (state \<times> nat)" where
  "starpu_submit_job_enforce_arbitered_deps s jb buf nbuf =
     (case arbiter (buffer_handle s jb buf) of
        None \<Rightarrow> Inl Null_dereference
      | Some a \<Rightarrow>
          (case try_acquire (log_events [Mutex_lock a] s) jb a buf nbuf of
             (s1, idx_buf_arbiter, all_arbiter_available) \<Rightarrow>
               if \<not> all_arbiter_available then
                 (case cancel_taken s1 jb a buf idx_buf_arbiter of
                    Inl e \<Rightarrow> Inl e
                  | Inr s2 \<Rightarrow>
                      Inr (log_events [Mutex_unlock a]
                             (record_requests s2 jb a buf nbuf idx_buf_arbiter), 1))
               else if idx_buf_arbiter < nbuf then
                 starpu_submit_job_enforce_arbitered_deps
                   (log_events [Mutex_unlock a] s1) jb idx_buf_arbiter nbuf
               else Inr (starpu_push_task jb (log_events [Mutex_unlock a] s1), 0)))"
  by pat_completeness auto
termination
proof (relation "measure (\<lambda>(s, jb, buf, n). n - buf)", goal_cases)
  case 1
  show ?case by simp
next
  case (2 s jb buf nbuf a s1 y k ok)
  have eq: "try_acquire (log_events [Mutex_lock a] s) jb a buf nbuf = (s1, k, True)"
    using 2 by simp
  have "buf \<le> k"
    using eq by (rule try_acquire_index_mono)
  then have "buf < nbuf"
    using 2 by simp
  moreover have "arbiter (buffer_handle (log_events [Mutex_lock a] s) jb buf) = Some a"
    using 2 by (simp add: buffer_handle_def JOB_GET_ORDERED_BUFFER_HANDLE_def)
  ultimately have "buf < k"
    using try_acquire_index_progress[OF eq] by simp
  then show ?case
    using 2 by simp
qed

declare starpu_submit_job_enforce_arbitered_deps.simps [simp del]

section \<open>Notification\<close>

text \<open>
  \<open>remove_job_from_requester_list\<close> erases the first requester of the list that
  carries the job and returns 0, or returns 1 when there is none.
\<close>

fun remove_job_from_requester_list ::
  "starpu_data_requester list \<Rightarrow> job_ptr \<Rightarrow> starpu_data_requester list \<times> nat" where
  "remove_job_from_requester_list [] jb = ([], 1)"
| "remove_job_from_requester_list (iter # rest) jb =
     (if j iter \<noteq> jb
      then (case remove_job_from_requester_list rest jb of (l, res) \<Rightarrow> (iter # l, res))
      else (rest, 0))"

text \<open>The loop that finds the position of the buffers of the arbiter.\<close>

function find_arbiter_buffers ::
  "state \<Rightarrow> job_ptr \<Rightarrow> arbiter_ptr \<Rightarrow> nat \<Rightarrow> nat \<Rightarrow> nat" where
  "find_arbiter_buffers s jb a nb_non_arbitered_buff nbuf =
     (if nb_non_arbitered_buff < nbuf then
        if already_requested s jb nb_non_arbitered_buff
        then find_arbiter_buffers s jb a (nb_non_arbitered_buff + 1) nbuf
        else if arbiter (buffer_handle s jb nb_non_arbitered_buff) = Some a
        then nb_non_arbitered_buff
        else find_arbiter_buffers s jb a (nb_non_arbitered_buff + 1) nbuf
      else nb_non_arbitered_buff)"
  by pat_completeness auto
termination
  by (relation "measure (\<lambda>(s, jb, a, i, n). n - i)") auto

declare find_arbiter_buffers.simps [simp del]

text \<open>The loop of the notification that marks the handles as taken.\<close>

function notify_try_acquire ::
  "state \<Rightarrow> job_ptr \<Rightarrow> arbiter_ptr \<Rightarrow> nat \<Rightarrow> nat \<Rightarrow> state \<times> nat \<times> bool" where
  "notify_try_acquire s jb a idx_buf_arbiter nbuf =
     (if idx_buf_arbiter < nbuf then
        if already_requested s jb idx_buf_arbiter
        then notify_try_acquire s jb a (idx_buf_arbiter + 1) nbuf
        else if arbiter (buffer_handle s jb idx_buf_arbiter) \<noteq> Some a
        then (s, idx_buf_arbiter, True)
        else if refcnt (buffer_handle s jb idx_buf_arbiter) \<noteq> 0
        then (lock_unlock s jb idx_buf_arbiter, idx_buf_arbiter, False)
        else notify_try_acquire (mark_taken s jb idx_buf_arbiter) jb a
               (idx_buf_arbiter + 1) nbuf
      else (s, idx_buf_arbiter, True))"
  by pat_completeness auto
termination
  by (relation "measure (\<lambda>(s, jb, a, i, n). n - i)") auto

declare notify_try_acquire.simps [simp del]

text \<open>
  The body of the loop that removes the requesters of the promoted job, on the handle
  of buffer \<open>i\<close>: the three assertions, the removal, and the deletion of a list
  that has become empty.
\<close>

definition remove_requester :: "state \<Rightarrow> job_ptr \<Rightarrow> nat \<Rightarrow> error + state" where
  "remove_requester s jb i =
     (if refcnt (buffer_handle s jb i) \<noteq> 1 then Inl Assertion_failed
      else if \<not> busy_count (buffer_handle s jb i) \<ge> 1 then Inl Assertion_failed
      else if current_mode (buffer_handle s jb i) \<noteq> JOB_GET_ORDERED_BUFFER_MODE s jb i
      then Inl Assertion_failed
      else (case arbitered_req_list (buffer_handle s jb i) of
              None \<Rightarrow> Inl Null_dereference
            | Some l \<Rightarrow>
                (case remove_job_from_requester_list l jb of
                   (l', correctly_deleted) \<Rightarrow>
                     if correctly_deleted \<noteq> 0 then Inl Assertion_failed
                     else Inr (with_header_lock s jb i
                                 (\<lambda>d. d\<lparr>arbitered_req_list :=
                                           (if l' = [] then None else Some l')\<rparr>)))))"

text \<open>The loop itself; it returns the final value of \<open>idx_buf_arbiter\<close> with the state.\<close>

function remove_requesters ::
  "state \<Rightarrow> job_ptr \<Rightarrow> arbiter_ptr \<Rightarrow> nat \<Rightarrow> nat \<Rightarrow> error + (state \<times> nat)" where
  "remove_requesters s jb a idx_buf_arbiter nbuf =
     (if idx_buf_arbiter < nbuf then
        if already_requested s jb idx_buf_arbiter
        then remove_requesters s jb a (idx_buf_arbiter + 1) nbuf
        else if arbiter (buffer_handle s jb idx_buf_arbiter) \<noteq> Some a
        then Inr (s, idx_buf_arbiter)
        else (case remove_requester s jb idx_buf_arbiter of
                Inl e \<Rightarrow> Inl e
              | Inr s' \<Rightarrow> remove_requesters s' jb a (idx_buf_arbiter + 1) nbuf)
      else Inr (s, idx_buf_arbiter))"
  by pat_completeness auto
termination
  by (relation "measure (\<lambda>(s, jb, a, i, n). n - i)") auto

declare remove_requesters.simps [simp del]

text \<open>
  What the notification does once every handle of the group has been taken for a job:
  remove its requesters, release the mutex of the arbiter, then hand the job to its
  next group of arbitered buffers or push it.
\<close>

definition promote ::
  "state \<Rightarrow> job_ptr \<Rightarrow> arbiter_ptr \<Rightarrow> nat \<Rightarrow> nat \<Rightarrow> error + (state \<times> nat)" where
  "promote s jb a nb_non_arbitered_buff nbuf =
     (case remove_requesters s jb a nb_non_arbitered_buff nbuf of
        Inl e \<Rightarrow> Inl e
      | Inr (s2, idx_buf_arbiter) \<Rightarrow>
          if idx_buf_arbiter < nbuf then
            (case starpu_submit_job_enforce_arbitered_deps
                    (log_events [Mutex_unlock a] s2) jb idx_buf_arbiter nbuf of
               Inl e \<Rightarrow> Inl e
             | Inr (s3, res) \<Rightarrow> Inr (s3, 0))
          else Inr (starpu_push_task jb (log_events [Mutex_unlock a] s2), 0))"

text \<open>
  The scan of the requesters of the notified handle, from the head of the list.
  A requester whose pass fails changes no list, so the scan follows the list as it was
  when the scan began.
\<close>

fun notify_scan ::
  "state \<Rightarrow> arbiter_ptr \<Rightarrow> starpu_data_requester list \<Rightarrow> error + (state \<times> nat)" where
  "notify_scan s a [] = Inr (log_events [Mutex_unlock a] s, 1)"
| "notify_scan s a (r # rest) =
     (case notify_try_acquire s (j r) a
             (find_arbiter_buffers s (j r) a 0 (nbuffers (jobs s (j r))))
             (nbuffers (jobs s (j r))) of
        (s1, idx_buf_arbiter, all_arbiter_available) \<Rightarrow>
          if all_arbiter_available
          then promote s1 (j r) a
                 (find_arbiter_buffers s (j r) a 0 (nbuffers (jobs s (j r))))
                 (nbuffers (jobs s (j r)))
          else (case cancel_taken s1 (j r) a
                       (find_arbiter_buffers s (j r) a 0 (nbuffers (jobs s (j r))))
                       idx_buf_arbiter of
                  Inl e \<Rightarrow> Inl e
                | Inr s2 \<Rightarrow> notify_scan s2 a rest))"

text \<open>The whole of \<open>_starpu_notify_arbitered_dependencies\<close>, with the value it returns.\<close>

definition starpu_notify_arbitered_dependencies ::
  "state \<Rightarrow> handle_ptr \<Rightarrow> error + (state \<times> nat)" where
  "starpu_notify_arbitered_dependencies s handle =
     (case arbiter (handles s handle) of
        None \<Rightarrow> Inl Null_dereference
      | Some a \<Rightarrow>
          (case arbitered_req_list (handles s handle) of
             None \<Rightarrow> Inr (log_events [Mutex_lock a, Mutex_unlock a] s, 1)
           | Some l \<Rightarrow> notify_scan (log_events [Mutex_lock a] s) a l))"

section \<open>Assigning an arbiter\<close>

definition starpu_data_assign_arbiter ::
  "state \<Rightarrow> handle_ptr \<Rightarrow> arbiter_ptr option \<Rightarrow> error + state" where
  "starpu_data_assign_arbiter s handle a =
     (if arbiter (handles s handle) \<noteq> None then Inl Assertion_failed
      else if refcnt (handles s handle) \<noteq> 0 then Inl Assertion_failed
      else if busy_count (handles s handle) \<noteq> 0 then Inl Assertion_failed
      else Inr (set_handle handle ((handles s handle)\<lparr>arbiter := a\<rparr>) s))"

section \<open>Every change of a handle\<close>

text \<open>
  The ways in which the loops change one handle: a reference taken at submission, a
  reference taken by the notification, a reference dropped, a requester recorded (with
  or without counting it in \<open>busy_count\<close>), a requester removed.
\<close>

inductive handle_change :: "starpu_data_state \<Rightarrow> starpu_data_state \<Rightarrow> bool" where
  taken: "refcnt d = 0 \<Longrightarrow>
     d' = d\<lparr>refcnt := 1, busy_count := busy_count d + 1, current_mode := m\<rparr> \<Longrightarrow>
     handle_change d d'"
| marked: "refcnt d = 0 \<Longrightarrow> d' = d\<lparr>refcnt := 1, current_mode := m\<rparr> \<Longrightarrow>
     handle_change d d'"
| dropped: "refcnt d = 1 \<Longrightarrow> d' = d\<lparr>refcnt := 0\<rparr> \<Longrightarrow> handle_change d d'"
| parked: "d' = d\<lparr>arbitered_req_list := requester_list_push_front (arbitered_req_list d) r,
                    busy_count := busy_count d + 1\<rparr> \<Longrightarrow>
     handle_change d d'"
| parked_taken:
    "d' = d\<lparr>arbitered_req_list := requester_list_push_front (arbitered_req_list d) r\<rparr> \<Longrightarrow>
     handle_change d d'"
| unparked: "refcnt d = 1 \<Longrightarrow> 1 \<le> busy_count d \<Longrightarrow> arbitered_req_list d = Some l \<Longrightarrow>
     remove_job_from_requester_list l jb = (l', 0) \<Longrightarrow>
     d' = d\<lparr>arbitered_req_list := (if l' = [] then None else Some l')\<rparr> \<Longrightarrow>
     handle_change d d'"

definition handles_change :: "state \<Rightarrow> state \<Rightarrow> bool" where
  "handles_change s s' \<longleftrightarrow> (\<forall>h. handle_change\<^sup>*\<^sup>* (handles s h) (handles s' h))"


section \<open>The locks held along a trace\<close>

text \<open>
  \<open>held_after H es\<close> is the list of the locks held after the events \<open>es\<close>, from the
  locks \<open>H\<close>; \<open>pushes_unlocked H es\<close> says that every push of a task among the events
  \<open>es\<close> happens while no lock is held.
\<close>

datatype lock = Arbiter_mutex arbiter_ptr | Header_lock handle_ptr

fun held_after :: "lock list \<Rightarrow> event list \<Rightarrow> lock list" where
  "held_after H [] = H"
| "held_after H (Mutex_lock a # es) = held_after (Arbiter_mutex a # H) es"
| "held_after H (Mutex_unlock a # es) = held_after (remove1 (Arbiter_mutex a) H) es"
| "held_after H (Spin_lock h # es) = held_after (Header_lock h # H) es"
| "held_after H (Spin_unlock h # es) = held_after (remove1 (Header_lock h) H) es"
| "held_after H (Push_task jb # es) = held_after H es"

fun pushes_unlocked :: "lock list \<Rightarrow> event list \<Rightarrow> bool" where
  "pushes_unlocked H [] \<longleftrightarrow> True"
| "pushes_unlocked H (Push_task jb # es) \<longleftrightarrow> H = [] \<and> pushes_unlocked H es"
| "pushes_unlocked H (e # es) \<longleftrightarrow> pushes_unlocked (held_after H [e]) es"

section \<open>Example states\<close>

definition fresh_handle :: "arbiter_ptr option \<Rightarrow> starpu_data_state" where
  "fresh_handle a =
     \<lparr>refcnt = 0, busy_count = 0, current_mode = 0, arbiter = a, arbitered_req_list = None\<rparr>"

definition job_of_buffers :: "(handle_ptr \<times> starpu_data_access_mode) list \<Rightarrow> starpu_job" where
  "job_of_buffers l =
     \<lparr>nbuffers = length l, ordered_buffers = (\<lambda>i. if i < length l then l ! i else (0, 0))\<rparr>"

definition example_jobs :: "job_ptr \<Rightarrow> starpu_job" where
  "example_jobs =
     (\<lambda>jb. job_of_buffers [])
       (10 := job_of_buffers [(1, 2), (2, 2)],
        11 := job_of_buffers [(2, 2)],
        12 := job_of_buffers [(1, 2)],
        13 := job_of_buffers [(1, 2), (1, 1)],
        14 := job_of_buffers [(1, 2), (4, 2)],
        15 := job_of_buffers [(2, 2), (2, 1)])"

definition example_state :: state where
  "example_state =
     \<lparr>handles = (\<lambda>h. if h = 3 then fresh_handle None
                     else if h = 4 then fresh_handle (Some 8) else fresh_handle (Some 7)),
      jobs = example_jobs, pushed = [], trace = []\<rparr>"

definition waiting_state :: state where
  "waiting_state =
     \<lparr>handles = (\<lambda>h. if h = 1
                     then \<lparr>refcnt = 0, busy_count = 1, current_mode = 2, arbiter = Some 7,
                           arbitered_req_list = Some [requester_new 2 12 0]\<rparr>
                     else if h = 2
                     then \<lparr>refcnt = 1, busy_count = 2, current_mode = 2, arbiter = Some 7,
                           arbitered_req_list = Some [requester_new 2 11 0]\<rparr>
                     else fresh_handle (Some 7)),
      jobs = example_jobs, pushed = [], trace = []\<rparr>"


text \<open>
  The state reached from \<open>waiting_state\<close> when job 10 has been recorded on the handles
  1 and 2 and the reference held on handle 2 has been given back.
\<close>

definition released_state :: state where
  "released_state =
     \<lparr>handles = (\<lambda>h. if h = 1
                     then \<lparr>refcnt = 0, busy_count = 2, current_mode = 2, arbiter = Some 7,
                           arbitered_req_list =
                             Some [requester_new 2 10 0, requester_new 2 12 0]\<rparr>
                     else if h = 2
                     then \<lparr>refcnt = 0, busy_count = 2, current_mode = 2, arbiter = Some 7,
                           arbitered_req_list =
                             Some [requester_new 2 10 1, requester_new 2 11 0]\<rparr>
                     else fresh_handle (Some 7)),
      jobs = example_jobs, pushed = [], trace = []\<rparr>"

text \<open>
  The state in which job 12 holds handle 1 and no job waits: the list of requests of
  every handle is NULL.
\<close>

definition taken_state :: state where
  "taken_state =
     \<lparr>handles = (\<lambda>h. if h = 1
                     then \<lparr>refcnt = 1, busy_count = 1, current_mode = 2, arbiter = Some 7,
                           arbitered_req_list = None\<rparr>
                     else fresh_handle (Some 7)),
      jobs = example_jobs, pushed = [], trace = []\<rparr>"

section \<open>Notions used in the statements\<close>

text \<open>The requesters recorded on a handle, from the head of the list; none when it is NULL.\<close>

definition requesters :: "starpu_data_state \<Rightarrow> starpu_data_requester list" where
  "requesters d = (case arbitered_req_list d of None \<Rightarrow> [] | Some l \<Rightarrow> l)"

text \<open>
  Two values of a handle hold the same references: they differ at most in
  \<open>current_mode\<close>, and only when \<open>refcnt\<close> is 0, where the mode means nothing.
\<close>

definition same_references :: "starpu_data_state \<Rightarrow> starpu_data_state \<Rightarrow> bool" where
  "same_references d d' \<longleftrightarrow>
     refcnt d' = refcnt d \<and> busy_count d' = busy_count d \<and> arbiter d' = arbiter d \<and>
     arbitered_req_list d' = arbitered_req_list d \<and>
     (current_mode d' = current_mode d \<or> refcnt d = 0)"

text \<open>
  \<open>first_arbiter_buffer\<close> is the position that the notification finds for the buffers
  of the arbiter in a job. \<open>all_available\<close> says that
  the pass of the notification for a job succeeds: the value of \<open>all_arbiter_available\<close>
  after the first loop of \<open>_starpu_notify_arbitered_dependencies\<close> for that job.
\<close>

definition first_arbiter_buffer :: "state \<Rightarrow> job_ptr \<Rightarrow> arbiter_ptr \<Rightarrow> nat" where
  "first_arbiter_buffer s jb a = find_arbiter_buffers s jb a 0 (nbuffers (jobs s jb))"

definition all_available :: "state \<Rightarrow> job_ptr \<Rightarrow> arbiter_ptr \<Rightarrow> bool" where
  "all_available s jb a =
     snd (snd (notify_try_acquire s jb a (first_arbiter_buffer s jb a) (nbuffers (jobs s jb))))"


text \<open>
  The invariant \<open>refcnt \<le> busy_count\<close> on every handle, and the room left in
  \<open>busy_count\<close>: \<open>busy_room s m\<close> says that no \<open>busy_count\<close> of the state wraps
  around when it is incremented \<open>m\<close> times.
\<close>

definition refcnt_le_busy :: "state \<Rightarrow> bool" where
  "refcnt_le_busy s \<longleftrightarrow> (\<forall>h. refcnt (handles s h) \<le> busy_count (handles s h))"

definition busy_room :: "state \<Rightarrow> nat \<Rightarrow> bool" where
  "busy_room s m \<longleftrightarrow> (\<forall>h. unat (busy_count (handles s h)) + m < 2 ^ 32)"

text \<open>
  Two more example states. In \<open>overflow_state\<close> handle 1 is free and its \<open>busy_count\<close>
  has the largest value of the type. In \<open>uncounted_state\<close> job 12 is recorded on
  handle 1, which is free, with a \<open>busy_count\<close> of 0.
\<close>

definition overflow_state :: state where
  "overflow_state =
     \<lparr>handles = (\<lambda>h. if h = 1
                     then \<lparr>refcnt = 0, busy_count = 4294967295, current_mode = 0,
                           arbiter = Some 7, arbitered_req_list = None\<rparr>
                     else fresh_handle (Some 7)),
      jobs = example_jobs, pushed = [], trace = []\<rparr>"

definition uncounted_state :: state where
  "uncounted_state =
     \<lparr>handles = (\<lambda>h. if h = 1
                     then \<lparr>refcnt = 0, busy_count = 0, current_mode = 2,
                           arbiter = Some 7,
                           arbitered_req_list = Some [requester_new 2 12 0]\<rparr>
                     else fresh_handle (Some 7)),
      jobs = example_jobs, pushed = [], trace = []\<rparr>"

text \<open>
  A list of events is quiet when it pushes no task and leaves the held locks as they
  were; it is safe when, from no lock held, it pushes only with no lock held and ends
  with no lock held.
\<close>

definition quiet :: "event list \<Rightarrow> bool" where
  "quiet es \<longleftrightarrow> (\<forall>H. held_after H es = H \<and> pushes_unlocked H es)"

definition safe :: "event list \<Rightarrow> bool" where
  "safe es \<longleftrightarrow> pushes_unlocked [] es \<and> held_after [] es = []"

text \<open>
  A run from one state to another is quiet, or safe, when the events it adds to the
  trace are. Inside the notification the mutex is held: a run from there is quiet up to
  the release of the mutex, and safe after it.
\<close>

definition quiet_run :: "state \<Rightarrow> state \<Rightarrow> bool" where
  "quiet_run s s' \<longleftrightarrow> (\<exists>es. trace s' = trace s @ es \<and> quiet es)"

definition safe_run :: "state \<Rightarrow> state \<Rightarrow> bool" where
  "safe_run s s' \<longleftrightarrow> (\<exists>es. trace s' = trace s @ es \<and> safe es)"

definition unlocking_run :: "arbiter_ptr \<Rightarrow> state \<Rightarrow> state \<Rightarrow> bool" where
  "unlocking_run a s s' \<longleftrightarrow>
     (\<exists>sm. quiet_run s sm \<and> safe_run (log_events [Mutex_unlock a] sm) s')"

text \<open>Two states hold the same references when each of their handles does.\<close>

definition same_state :: "state \<Rightarrow> state \<Rightarrow> bool" where
  "same_state s t \<longleftrightarrow>
     jobs t = jobs s \<and> pushed t = pushed s \<and>
     (\<forall>h. same_references (handles s h) (handles t h))"

section \<open>Basic facts about the state\<close>

lemma set_handle_fields [simp]:
  "handles (set_handle h d s) = (handles s)(h := d)"
  "jobs (set_handle h d s) = jobs s"
  "pushed (set_handle h d s) = pushed s"
  "trace (set_handle h d s) = trace s"
  by (simp_all add: set_handle_def)

lemma starpu_push_task_fields [simp]:
  "handles (starpu_push_task jb s) = handles s"
  "jobs (starpu_push_task jb s) = jobs s"
  "pushed (starpu_push_task jb s) = pushed s @ [jb]"
  "trace (starpu_push_task jb s) = trace s @ [Push_task jb]"
  by (simp_all add: starpu_push_task_def)

lemma with_header_lock_fields [simp]:
  "handles (with_header_lock s jb i f) =
     (handles s)(JOB_GET_ORDERED_BUFFER_HANDLE s jb i := f (buffer_handle s jb i))"
  "jobs (with_header_lock s jb i f) = jobs s"
  "pushed (with_header_lock s jb i f) = pushed s"
  "trace (with_header_lock s jb i f) =
     trace s @ [Spin_lock (JOB_GET_ORDERED_BUFFER_HANDLE s jb i),
                Spin_unlock (JOB_GET_ORDERED_BUFFER_HANDLE s jb i)]"
  by (simp_all add: with_header_lock_def Let_def buffer_handle_def)

lemma same_jobs:
  assumes "jobs s' = jobs s"
  shows "JOB_GET_ORDERED_BUFFER_HANDLE s' = JOB_GET_ORDERED_BUFFER_HANDLE s"
    and "JOB_GET_ORDERED_BUFFER_MODE s' = JOB_GET_ORDERED_BUFFER_MODE s"
    and "already_requested s' = already_requested s"
  using assms
  by (simp_all add: fun_eq_iff JOB_GET_ORDERED_BUFFER_HANDLE_def
      JOB_GET_ORDERED_BUFFER_MODE_def already_requested_def)

lemma buffer_handle_same_jobs:
  "jobs s' = jobs s \<Longrightarrow> buffer_handle s' jb i = handles s' (JOB_GET_ORDERED_BUFFER_HANDLE s jb i)"
  using same_jobs(1)[of s' s] by (simp add: buffer_handle_def)

lemma step_jobs [simp]:
  "jobs (take_reference s jb i) = jobs s"
  "jobs (lock_unlock s jb i) = jobs s"
  "jobs (drop_reference s jb i) = jobs s"
  "jobs (record_request s jb i k) = jobs s"
  "jobs (mark_taken s jb i) = jobs s"
  by (simp_all add: take_reference_def lock_unlock_def drop_reference_def
      record_request_def mark_taken_def)

lemma step_pushed [simp]:
  "pushed (take_reference s jb i) = pushed s"
  "pushed (lock_unlock s jb i) = pushed s"
  "pushed (drop_reference s jb i) = pushed s"
  "pushed (record_request s jb i k) = pushed s"
  "pushed (mark_taken s jb i) = pushed s"
  by (simp_all add: take_reference_def lock_unlock_def drop_reference_def
      record_request_def mark_taken_def)

lemma step_trace [simp]:
  "trace (take_reference s jb i) = trace (lock_unlock s jb i)"
  "trace (drop_reference s jb i) = trace (lock_unlock s jb i)"
  "trace (record_request s jb i k) = trace (lock_unlock s jb i)"
  "trace (mark_taken s jb i) = trace (lock_unlock s jb i)"
  by (simp_all add: take_reference_def lock_unlock_def drop_reference_def
      record_request_def mark_taken_def)

lemma lock_unlock_handles [simp]: "handles (lock_unlock s jb i) = handles s"
  by (simp add: lock_unlock_def buffer_handle_def)

lemma remove_requester_fields:
  assumes "remove_requester s jb i = Inr s'"
  shows "jobs s' = jobs s" and "pushed s' = pushed s"
    and "trace s' = trace (lock_unlock s jb i)"
  using assms
  by (auto simp: remove_requester_def lock_unlock_def split: if_splits option.splits prod.splits)

section \<open>The loops as relations\<close>

lemma try_acquire_induct_rel [consumes 1, case_names stop skip other take busy]:
  assumes run: "try_acquire s jb a i n = (s', k, ok)"
    and stop: "\<And>s i. \<not> i < n \<Longrightarrow> s' = s \<Longrightarrow> k = i \<Longrightarrow> ok \<Longrightarrow> P s i"
    and skip: "\<And>s i. i < n \<Longrightarrow> already_requested s jb i \<Longrightarrow>
        try_acquire s jb a (i + 1) n = (s', k, ok) \<Longrightarrow> P s (i + 1) \<Longrightarrow> P s i"
    and other: "\<And>s i. i < n \<Longrightarrow> \<not> already_requested s jb i \<Longrightarrow>
        arbiter (buffer_handle s jb i) \<noteq> Some a \<Longrightarrow> s' = s \<Longrightarrow> k = i \<Longrightarrow> ok \<Longrightarrow> P s i"
    and take: "\<And>s i. i < n \<Longrightarrow> \<not> already_requested s jb i \<Longrightarrow>
        arbiter (buffer_handle s jb i) = Some a \<Longrightarrow> refcnt (buffer_handle s jb i) = 0 \<Longrightarrow>
        try_acquire (take_reference s jb i) jb a (i + 1) n = (s', k, ok) \<Longrightarrow>
        P (take_reference s jb i) (i + 1) \<Longrightarrow> P s i"
    and busy: "\<And>s i. i < n \<Longrightarrow> \<not> already_requested s jb i \<Longrightarrow>
        arbiter (buffer_handle s jb i) = Some a \<Longrightarrow> refcnt (buffer_handle s jb i) \<noteq> 0 \<Longrightarrow>
        s' = lock_unlock s jb i \<Longrightarrow> k = i \<Longrightarrow> \<not> ok \<Longrightarrow> P s i"
  shows "P s i"
  using run
proof (induction "n - i" arbitrary: s i rule: less_induct)
  case less
  note eq = less.prems[unfolded try_acquire.simps[of s jb a i n]]
  consider (a) "\<not> i < n" | (b) "i < n" "already_requested s jb i"
    | (c) "i < n" "\<not> already_requested s jb i" "arbiter (buffer_handle s jb i) \<noteq> Some a"
    | (d) "i < n" "\<not> already_requested s jb i" "arbiter (buffer_handle s jb i) = Some a"
        "refcnt (buffer_handle s jb i) = 0"
    | (e) "i < n" "\<not> already_requested s jb i" "arbiter (buffer_handle s jb i) = Some a"
        "refcnt (buffer_handle s jb i) \<noteq> 0"
    by blast
  then show ?case
  proof cases
    case a
    with eq show ?thesis by (auto intro: stop)
  next
    case b
    with eq have r: "try_acquire s jb a (i + 1) n = (s', k, ok)" by simp
    from b have "n - (i + 1) < n - i" by simp
    from b r less.hyps[OF this r] show ?thesis by (rule skip)
  next
    case c
    with eq show ?thesis by (auto intro: other)
  next
    case d
    with eq have r: "try_acquire (take_reference s jb i) jb a (i + 1) n = (s', k, ok)" by simp
    from d have "n - (i + 1) < n - i" by simp
    from d r less.hyps[OF this r] show ?thesis by (rule take)
  next
    case e
    with eq show ?thesis by (auto intro: busy)
  qed
qed

lemma cancel_taken_induct_rel [consumes 1, case_names stop skip other drop]:
  assumes run: "cancel_taken s jb a i n = Inr s'"
    and stop: "\<And>s i. \<not> i < n \<Longrightarrow> s' = s \<Longrightarrow> P s i"
    and skip: "\<And>s i. i < n \<Longrightarrow> already_requested s jb i \<Longrightarrow>
        cancel_taken s jb a (i + 1) n = Inr s' \<Longrightarrow> P s (i + 1) \<Longrightarrow> P s i"
    and other: "\<And>s i. i < n \<Longrightarrow> \<not> already_requested s jb i \<Longrightarrow>
        arbiter (buffer_handle s jb i) \<noteq> Some a \<Longrightarrow> s' = s \<Longrightarrow> P s i"
    and drop: "\<And>s i. i < n \<Longrightarrow> \<not> already_requested s jb i \<Longrightarrow>
        arbiter (buffer_handle s jb i) = Some a \<Longrightarrow> refcnt (buffer_handle s jb i) = 1 \<Longrightarrow>
        cancel_taken (drop_reference s jb i) jb a (i + 1) n = Inr s' \<Longrightarrow>
        P (drop_reference s jb i) (i + 1) \<Longrightarrow> P s i"
  shows "P s i"
  using run
proof (induction "n - i" arbitrary: s i rule: less_induct)
  case less
  note eq = less.prems[unfolded cancel_taken.simps[of s jb a i n]]
  consider (a) "\<not> i < n" | (b) "i < n" "already_requested s jb i"
    | (c) "i < n" "\<not> already_requested s jb i" "arbiter (buffer_handle s jb i) \<noteq> Some a"
    | (d) "i < n" "\<not> already_requested s jb i" "arbiter (buffer_handle s jb i) = Some a"
        "refcnt (buffer_handle s jb i) = 1"
    | (e) "i < n" "\<not> already_requested s jb i" "arbiter (buffer_handle s jb i) = Some a"
        "refcnt (buffer_handle s jb i) \<noteq> 1"
    by blast
  then show ?case
  proof cases
    case a
    with eq show ?thesis by (auto intro: stop)
  next
    case b
    with eq have r: "cancel_taken s jb a (i + 1) n = Inr s'" by simp
    from b have "n - (i + 1) < n - i" by simp
    from b r less.hyps[OF this r] show ?thesis by (rule skip)
  next
    case c
    with eq show ?thesis by (auto intro: other)
  next
    case d
    with eq have r: "cancel_taken (drop_reference s jb i) jb a (i + 1) n = Inr s'" by simp
    from d have "n - (i + 1) < n - i" by simp
    from d r less.hyps[OF this r] show ?thesis by (rule drop)
  next
    case e
    with eq show ?thesis by simp
  qed
qed

lemma record_requests_induct_rel [consumes 1, case_names stop other park]:
  assumes run: "record_requests s jb a i n k = s'"
    and stop: "\<And>s i. \<not> i < n \<Longrightarrow> s' = s \<Longrightarrow> P s i"
    and other: "\<And>s i. i < n \<Longrightarrow> arbiter (buffer_handle s jb i) \<noteq> Some a \<Longrightarrow> s' = s \<Longrightarrow> P s i"
    and park: "\<And>s i. i < n \<Longrightarrow> arbiter (buffer_handle s jb i) = Some a \<Longrightarrow>
        record_requests (record_request s jb i k) jb a (i + 1) n k = s' \<Longrightarrow>
        P (record_request s jb i k) (i + 1) \<Longrightarrow> P s i"
  shows "P s i"
  using run
proof (induction "n - i" arbitrary: s i rule: less_induct)
  case less
  note eq = less.prems[unfolded record_requests.simps[of s jb a i n k]]
  consider (a) "\<not> i < n" | (c) "i < n" "arbiter (buffer_handle s jb i) \<noteq> Some a"
    | (d) "i < n" "arbiter (buffer_handle s jb i) = Some a"
    by blast
  then show ?case
  proof cases
    case a
    with eq show ?thesis by (auto intro: stop)
  next
    case c
    with eq show ?thesis by (auto intro: other)
  next
    case d
    with eq have r: "record_requests (record_request s jb i k) jb a (i + 1) n k = s'" by simp
    from d have "n - (i + 1) < n - i" by simp
    from d r less.hyps[OF this r] show ?thesis by (rule park)
  qed
qed

lemma notify_try_acquire_induct_rel [consumes 1, case_names stop skip other take busy]:
  assumes run: "notify_try_acquire s jb a i n = (s', k, ok)"
    and stop: "\<And>s i. \<not> i < n \<Longrightarrow> s' = s \<Longrightarrow> k = i \<Longrightarrow> ok \<Longrightarrow> P s i"
    and skip: "\<And>s i. i < n \<Longrightarrow> already_requested s jb i \<Longrightarrow>
        notify_try_acquire s jb a (i + 1) n = (s', k, ok) \<Longrightarrow> P s (i + 1) \<Longrightarrow> P s i"
    and other: "\<And>s i. i < n \<Longrightarrow> \<not> already_requested s jb i \<Longrightarrow>
        arbiter (buffer_handle s jb i) \<noteq> Some a \<Longrightarrow> s' = s \<Longrightarrow> k = i \<Longrightarrow> ok \<Longrightarrow> P s i"
    and take: "\<And>s i. i < n \<Longrightarrow> \<not> already_requested s jb i \<Longrightarrow>
        arbiter (buffer_handle s jb i) = Some a \<Longrightarrow> refcnt (buffer_handle s jb i) = 0 \<Longrightarrow>
        notify_try_acquire (mark_taken s jb i) jb a (i + 1) n = (s', k, ok) \<Longrightarrow>
        P (mark_taken s jb i) (i + 1) \<Longrightarrow> P s i"
    and busy: "\<And>s i. i < n \<Longrightarrow> \<not> already_requested s jb i \<Longrightarrow>
        arbiter (buffer_handle s jb i) = Some a \<Longrightarrow> refcnt (buffer_handle s jb i) \<noteq> 0 \<Longrightarrow>
        s' = lock_unlock s jb i \<Longrightarrow> k = i \<Longrightarrow> \<not> ok \<Longrightarrow> P s i"
  shows "P s i"
  using run
proof (induction "n - i" arbitrary: s i rule: less_induct)
  case less
  note eq = less.prems[unfolded notify_try_acquire.simps[of s jb a i n]]
  consider (a) "\<not> i < n" | (b) "i < n" "already_requested s jb i"
    | (c) "i < n" "\<not> already_requested s jb i" "arbiter (buffer_handle s jb i) \<noteq> Some a"
    | (d) "i < n" "\<not> already_requested s jb i" "arbiter (buffer_handle s jb i) = Some a"
        "refcnt (buffer_handle s jb i) = 0"
    | (e) "i < n" "\<not> already_requested s jb i" "arbiter (buffer_handle s jb i) = Some a"
        "refcnt (buffer_handle s jb i) \<noteq> 0"
    by blast
  then show ?case
  proof cases
    case a
    with eq show ?thesis by (auto intro: stop)
  next
    case b
    with eq have r: "notify_try_acquire s jb a (i + 1) n = (s', k, ok)" by simp
    from b have "n - (i + 1) < n - i" by simp
    from b r less.hyps[OF this r] show ?thesis by (rule skip)
  next
    case c
    with eq show ?thesis by (auto intro: other)
  next
    case d
    with eq have r: "notify_try_acquire (mark_taken s jb i) jb a (i + 1) n = (s', k, ok)" by simp
    from d have "n - (i + 1) < n - i" by simp
    from d r less.hyps[OF this r] show ?thesis by (rule take)
  next
    case e
    with eq show ?thesis by (auto intro: busy)
  qed
qed

lemma remove_requesters_induct_rel [consumes 1, case_names stop skip other remove]:
  assumes run: "remove_requesters s jb a i n = Inr (s', k)"
    and stop: "\<And>s i. \<not> i < n \<Longrightarrow> s' = s \<Longrightarrow> k = i \<Longrightarrow> P s i"
    and skip: "\<And>s i. i < n \<Longrightarrow> already_requested s jb i \<Longrightarrow>
        remove_requesters s jb a (i + 1) n = Inr (s', k) \<Longrightarrow> P s (i + 1) \<Longrightarrow> P s i"
    and other: "\<And>s i. i < n \<Longrightarrow> \<not> already_requested s jb i \<Longrightarrow>
        arbiter (buffer_handle s jb i) \<noteq> Some a \<Longrightarrow> s' = s \<Longrightarrow> k = i \<Longrightarrow> P s i"
    and remove: "\<And>s i s1. i < n \<Longrightarrow> \<not> already_requested s jb i \<Longrightarrow>
        arbiter (buffer_handle s jb i) = Some a \<Longrightarrow> remove_requester s jb i = Inr s1 \<Longrightarrow>
        remove_requesters s1 jb a (i + 1) n = Inr (s', k) \<Longrightarrow> P s1 (i + 1) \<Longrightarrow> P s i"
  shows "P s i"
  using run
proof (induction "n - i" arbitrary: s i rule: less_induct)
  case less
  note eq = less.prems[unfolded remove_requesters.simps[of s jb a i n]]
  consider (a) "\<not> i < n" | (b) "i < n" "already_requested s jb i"
    | (c) "i < n" "\<not> already_requested s jb i" "arbiter (buffer_handle s jb i) \<noteq> Some a"
    | (d) "i < n" "\<not> already_requested s jb i" "arbiter (buffer_handle s jb i) = Some a"
    by blast
  then show ?case
  proof cases
    case a
    with eq show ?thesis by (auto intro: stop)
  next
    case b
    with eq have r: "remove_requesters s jb a (i + 1) n = Inr (s', k)" by simp
    from b have "n - (i + 1) < n - i" by simp
    from b r less.hyps[OF this r] show ?thesis by (rule skip)
  next
    case c
    with eq show ?thesis by (auto intro: other)
  next
    case d
    with eq obtain s1 where s1: "remove_requester s jb i = Inr s1"
      and r: "remove_requesters s1 jb a (i + 1) n = Inr (s', k)"
      by (auto split: sum.splits)
    from d have "n - (i + 1) < n - i" by simp
    from d s1 r less.hyps[OF this r] show ?thesis by (rule remove)
  qed
qed

lemma submit_induct_rel [consumes 1, case_names park next_group push]:
  assumes run: "starpu_submit_job_enforce_arbitered_deps s jb buf n = Inr (s', res)"
    and park: "\<And>s buf a s1 k s2. arbiter (buffer_handle s jb buf) = Some a \<Longrightarrow>
        try_acquire (log_events [Mutex_lock a] s) jb a buf n = (s1, k, False) \<Longrightarrow>
        cancel_taken s1 jb a buf k = Inr s2 \<Longrightarrow>
        s' = log_events [Mutex_unlock a] (record_requests s2 jb a buf n k) \<Longrightarrow>
        res = 1 \<Longrightarrow> P s buf"
    and next_group: "\<And>s buf a s1 k. arbiter (buffer_handle s jb buf) = Some a \<Longrightarrow>
        try_acquire (log_events [Mutex_lock a] s) jb a buf n = (s1, k, True) \<Longrightarrow>
        k < n \<Longrightarrow> buf < k \<Longrightarrow>
        starpu_submit_job_enforce_arbitered_deps (log_events [Mutex_unlock a] s1) jb k n
          = Inr (s', res) \<Longrightarrow>
        P (log_events [Mutex_unlock a] s1) k \<Longrightarrow> P s buf"
    and push: "\<And>s buf a s1 k. arbiter (buffer_handle s jb buf) = Some a \<Longrightarrow>
        try_acquire (log_events [Mutex_lock a] s) jb a buf n = (s1, k, True) \<Longrightarrow>
        \<not> k < n \<Longrightarrow> s' = starpu_push_task jb (log_events [Mutex_unlock a] s1) \<Longrightarrow>
        res = 0 \<Longrightarrow> P s buf"
  shows "P s buf"
  using run
proof (induction "n - buf" arbitrary: s buf rule: less_induct)
  case less
  note eq = less.prems[unfolded starpu_submit_job_enforce_arbitered_deps.simps[of s jb buf n]]
  from eq obtain a where a: "arbiter (buffer_handle s jb buf) = Some a"
    by (auto split: option.splits)
  obtain s1 k ok where t: "try_acquire (log_events [Mutex_lock a] s) jb a buf n = (s1, k, ok)"
    by (cases "try_acquire (log_events [Mutex_lock a] s) jb a buf n") auto
  consider (p) "\<not> ok" | (n) "ok" "k < n" | (f) "ok" "\<not> k < n"
    by blast
  then show ?case
  proof cases
    case p
    with eq a t obtain s2 where "cancel_taken s1 jb a buf k = Inr s2"
      and "s' = log_events [Mutex_unlock a] (record_requests s2 jb a buf n k)" and "res = 1"
      by (auto split: sum.splits)
    with a t p show ?thesis by (auto intro: park)
  next
    case n
    with eq a t have r: "starpu_submit_job_enforce_arbitered_deps
        (log_events [Mutex_unlock a] s1) jb k n = Inr (s', res)"
      by simp
    from t n have t': "try_acquire (log_events [Mutex_lock a] s) jb a buf n = (s1, k, True)"
      by simp
    have "buf \<le> k"
      using t by (rule try_acquire_index_mono)
    with n have "buf < n" by simp
    moreover have "arbiter (buffer_handle (log_events [Mutex_lock a] s) jb buf) = Some a"
      using a by (simp add: buffer_handle_def JOB_GET_ORDERED_BUFFER_HANDLE_def)
    ultimately have lt: "buf < k"
      using try_acquire_index_progress[OF t'] by simp
    with n have "n - k < n - buf" by simp
    from a t' n(2) lt r less.hyps[OF this r] show ?thesis by (rule next_group)
  next
    case f
    with eq a t show ?thesis by (auto intro: push)
  qed
qed

lemma notify_scan_induct_rel [consumes 1, case_names empty promote fail]:
  assumes run: "notify_scan s a rs = Inr (s', res)"
    and empty: "\<And>s. s' = log_events [Mutex_unlock a] s \<Longrightarrow> res = 1 \<Longrightarrow> P s []"
    and promote: "\<And>s r rest s1 k.
        notify_try_acquire s (j r) a
          (find_arbiter_buffers s (j r) a 0 (nbuffers (jobs s (j r))))
          (nbuffers (jobs s (j r))) = (s1, k, True) \<Longrightarrow>
        promote s1 (j r) a (find_arbiter_buffers s (j r) a 0 (nbuffers (jobs s (j r))))
          (nbuffers (jobs s (j r))) = Inr (s', res) \<Longrightarrow> P s (r # rest)"
    and fail: "\<And>s r rest s1 k s2.
        notify_try_acquire s (j r) a
          (find_arbiter_buffers s (j r) a 0 (nbuffers (jobs s (j r))))
          (nbuffers (jobs s (j r))) = (s1, k, False) \<Longrightarrow>
        cancel_taken s1 (j r) a (find_arbiter_buffers s (j r) a 0 (nbuffers (jobs s (j r)))) k
          = Inr s2 \<Longrightarrow>
        notify_scan s2 a rest = Inr (s', res) \<Longrightarrow> P s2 rest \<Longrightarrow> P s (r # rest)"
  shows "P s rs"
  using run
proof (induction rs arbitrary: s)
  case Nil
  then show ?case by (auto intro: empty)
next
  case (Cons r rest)
  obtain s1 k ok where t: "notify_try_acquire s (j r) a
          (find_arbiter_buffers s (j r) a 0 (nbuffers (jobs s (j r))))
          (nbuffers (jobs s (j r))) = (s1, k, ok)"
    by (cases "notify_try_acquire s (j r) a
          (find_arbiter_buffers s (j r) a 0 (nbuffers (jobs s (j r))))
          (nbuffers (jobs s (j r)))") auto
  show ?case
  proof (cases ok)
    case True
    with Cons.prems t show ?thesis by (auto intro: promote)
  next
    case False
    with Cons.prems t obtain s2 where c: "cancel_taken s1 (j r) a
        (find_arbiter_buffers s (j r) a 0 (nbuffers (jobs s (j r)))) k = Inr s2"
      and r: "notify_scan s2 a rest = Inr (s', res)"
      by (auto split: sum.splits)
    from t False have t': "notify_try_acquire s (j r) a
          (find_arbiter_buffers s (j r) a 0 (nbuffers (jobs s (j r))))
          (nbuffers (jobs s (j r))) = (s1, k, False)" by simp
    from t' c r Cons.IH[OF r] show ?thesis by (rule fail)
  qed
qed

section \<open>What the loops leave unchanged\<close>

lemma try_acquire_frame:
  assumes "try_acquire s jb a i n = (s', k, ok)"
  shows "jobs s' = jobs s \<and> pushed s' = pushed s"
  using assms by (induction rule: try_acquire_induct_rel) simp_all

lemma cancel_taken_frame:
  assumes "cancel_taken s jb a i n = Inr s'"
  shows "jobs s' = jobs s \<and> pushed s' = pushed s"
  using assms by (induction rule: cancel_taken_induct_rel) simp_all

lemma record_requests_frame:
  assumes "record_requests s jb a i n k = s'"
  shows "jobs s' = jobs s \<and> pushed s' = pushed s"
  using assms by (induction rule: record_requests_induct_rel) simp_all

lemma notify_try_acquire_frame:
  assumes "notify_try_acquire s jb a i n = (s', k, ok)"
  shows "jobs s' = jobs s \<and> pushed s' = pushed s"
  using assms by (induction rule: notify_try_acquire_induct_rel) simp_all

lemma remove_requesters_frame:
  assumes "remove_requesters s jb a i n = Inr (s', k)"
  shows "jobs s' = jobs s \<and> pushed s' = pushed s"
  using assms
  by (induction rule: remove_requesters_induct_rel) (simp_all add: remove_requester_fields)

lemma submit_jobs:
  assumes "starpu_submit_job_enforce_arbitered_deps s jb buf n = Inr (s', res)"
  shows "jobs s' = jobs s"
  using assms
proof (induction rule: submit_induct_rel)
  case (park s buf a s1 k s2)
  then show ?case
    using try_acquire_frame[of "log_events [Mutex_lock a] s" jb a buf n s1 k False]
      cancel_taken_frame[of s1 jb a buf k s2]
      record_requests_frame[of s2 jb a buf n k, OF refl]
    by simp
next
  case (next_group s buf a s1 k)
  then show ?case
    using try_acquire_frame[of "log_events [Mutex_lock a] s" jb a buf n s1 k True] by simp
next
  case (push s buf a s1 k)
  then show ?case
    using try_acquire_frame[of "log_events [Mutex_lock a] s" jb a buf n s1 k True] by simp
qed

section \<open>Every change of a handle, through the loops\<close>

lemma handles_change_refl [simp]: "handles_change s s"
  by (simp add: handles_change_def)

lemma handles_change_same: "handles s' = handles s \<Longrightarrow> handles_change s s'"
  by (simp add: handles_change_def)

lemma handles_change_trans:
  "handles_change s s1 \<Longrightarrow> handles_change s1 s2 \<Longrightarrow> handles_change s s2"
  by (auto simp: handles_change_def intro: rtranclp_trans)

lemma handles_change_step:
  assumes "handle_change (buffer_handle s jb i) (f (buffer_handle s jb i))"
  shows "handles_change s (with_header_lock s jb i f)"
  using assms by (auto simp: handles_change_def buffer_handle_def)

lemma handles_change_log [simp]:
  "handles_change s (log_events es s')  \<longleftrightarrow> handles_change s s'"
  "handles_change (log_events es s) s' \<longleftrightarrow> handles_change s s'"
  "handles_change s (starpu_push_task jb s')  \<longleftrightarrow> handles_change s s'"
  by (simp_all add: handles_change_def)

lemma take_reference_change:
  "refcnt (buffer_handle s jb i) = 0 \<Longrightarrow> handles_change s (take_reference s jb i)"
  unfolding take_reference_def
  by (rule handles_change_step) (auto intro: handle_change.taken)

lemma mark_taken_change:
  "refcnt (buffer_handle s jb i) = 0 \<Longrightarrow> handles_change s (mark_taken s jb i)"
  unfolding mark_taken_def
  by (rule handles_change_step) (auto intro: handle_change.marked)

lemma drop_reference_change:
  "refcnt (buffer_handle s jb i) = 1 \<Longrightarrow> handles_change s (drop_reference s jb i)"
  unfolding drop_reference_def
  by (rule handles_change_step) (auto intro: handle_change.dropped)

lemma record_request_change: "handles_change s (record_request s jb i k)"
  unfolding record_request_def
  by (rule handles_change_step) (auto intro: handle_change.parked handle_change.parked_taken)

lemma remove_requester_change:
  assumes "remove_requester s jb i = Inr s'"
  shows "handles_change s s'"
proof -
  from assms obtain l l' where
    "refcnt (buffer_handle s jb i) = 1" "1 \<le> busy_count (buffer_handle s jb i)"
    "arbitered_req_list (buffer_handle s jb i) = Some l"
    "remove_job_from_requester_list l jb = (l', 0)"
    and s': "s' = with_header_lock s jb i
          (\<lambda>d. d\<lparr>arbitered_req_list := (if l' = [] then None else Some l')\<rparr>)"
    by (auto simp: remove_requester_def split: if_splits option.splits prod.splits)
  then show ?thesis
    unfolding s' by (intro handles_change_step) (auto intro: handle_change.unparked)
qed

lemma try_acquire_change:
  assumes "try_acquire s jb a i n = (s', k, ok)"
  shows "handles_change s s'"
  using assms
  by (induction rule: try_acquire_induct_rel)
     (auto intro: handles_change_same handles_change_trans[OF take_reference_change])

lemma notify_try_acquire_change:
  assumes "notify_try_acquire s jb a i n = (s', k, ok)"
  shows "handles_change s s'"
  using assms
  by (induction rule: notify_try_acquire_induct_rel)
     (auto intro: handles_change_same handles_change_trans[OF mark_taken_change])

lemma cancel_taken_change:
  assumes "cancel_taken s jb a i n = Inr s'"
  shows "handles_change s s'"
  using assms
  by (induction rule: cancel_taken_induct_rel)
     (auto intro: handles_change_trans[OF drop_reference_change])

lemma record_requests_change:
  assumes "record_requests s jb a i n k = s'"
  shows "handles_change s s'"
  using assms
  by (induction rule: record_requests_induct_rel)
     (auto intro: handles_change_trans[OF record_request_change])

lemma remove_requesters_change:
  assumes "remove_requesters s jb a i n = Inr (s', k)"
  shows "handles_change s s'"
  using assms
  by (induction rule: remove_requesters_induct_rel)
     (auto intro: handles_change_trans[OF remove_requester_change])

lemma submit_change:
  assumes "starpu_submit_job_enforce_arbitered_deps s jb buf n = Inr (s', res)"
  shows "handles_change s s'"
  using assms
proof (induction rule: submit_induct_rel)
  case (park s buf a s1 k s2)
  have "handles_change s s1"
    using try_acquire_change[OF park(2)] by simp
  moreover have "handles_change s1 s2"
    using park(3) by (rule cancel_taken_change)
  moreover have "handles_change s2 (record_requests s2 jb a buf n k)"
    by (rule record_requests_change[OF refl])
  ultimately show ?case
    using park(4) by (auto intro: handles_change_trans)
next
  case (next_group s buf a s1 k)
  have "handles_change s s1"
    using try_acquire_change[OF next_group(2)] by simp
  moreover have "handles_change s1 s'"
    using next_group(6) by simp
  ultimately show ?case
    by (rule handles_change_trans)
next
  case (push s buf a s1 k)
  then show ?case
    using try_acquire_change[OF push(2)] by simp
qed

lemma promote_change:
  assumes "promote s jb a nb n = Inr (s', res)"
  shows "handles_change s s'"
proof -
  from assms obtain s2 k where r: "remove_requesters s jb a nb n = Inr (s2, k)"
    by (auto simp: promote_def split: sum.splits)
  have c: "handles_change s s2"
    using r by (rule remove_requesters_change)
  show ?thesis
  proof (cases "k < n")
    case True
    with assms r obtain res' where
      "starpu_submit_job_enforce_arbitered_deps (log_events [Mutex_unlock a] s2) jb k n
         = Inr (s', res')"
      by (auto simp: promote_def split: sum.splits)
    from submit_change[OF this] have "handles_change s2 s'" by simp
    with c show ?thesis by (rule handles_change_trans)
  next
    case False
    with assms r c show ?thesis by (auto simp: promote_def)
  qed
qed

lemma notify_scan_change:
  assumes "notify_scan s a rs = Inr (s', res)"
  shows "handles_change s s'"
  using assms
proof (induction rule: notify_scan_induct_rel)
  case (empty s)
  then show ?case by simp
next
  case (promote s r rest s1 k)
  from notify_try_acquire_change[OF promote(1)] promote_change[OF promote(2)]
  show ?case by (rule handles_change_trans)
next
  case (fail s r rest s1 k s2)
  from notify_try_acquire_change[OF fail(1)] cancel_taken_change[OF fail(2)]
  have "handles_change s s2" by (rule handles_change_trans)
  then show ?case using fail(4) by (rule handles_change_trans)
qed

lemma notify_change:
  assumes "starpu_notify_arbitered_dependencies s h = Inr (s', res)"
  shows "handles_change s s'"
  using assms
  by (auto simp: starpu_notify_arbitered_dependencies_def split: option.splits
      dest!: notify_scan_change)

section \<open>Evaluation on the example states\<close>

lemmas run_simps =
  starpu_submit_job_enforce_arbitered_deps.simps try_acquire.simps cancel_taken.simps
  record_requests.simps notify_try_acquire.simps remove_requesters.simps
  find_arbiter_buffers.simps remove_requester_def promote_def
  starpu_notify_arbitered_dependencies_def starpu_data_assign_arbiter_def
  take_reference_def lock_unlock_def drop_reference_def record_request_def mark_taken_def
  with_header_lock_def log_events_def set_handle_def starpu_push_task_def buffer_handle_def
  JOB_GET_ORDERED_BUFFER_HANDLE_def JOB_GET_ORDERED_BUFFER_MODE_def already_requested_def
  requester_new_def requester_list_push_front_def
  fresh_handle_def job_of_buffers_def example_jobs_def example_state_def waiting_state_def released_state_def
  overflow_state_def uncounted_state_def taken_state_def

section \<open>Invariants of the changes of a handle\<close>

lemma handle_change_arbiter: "handle_change d d' \<Longrightarrow> arbiter d' = arbiter d"
  by (induction rule: handle_change.induct) simp_all

lemma handle_changes_arbiter: "handle_change\<^sup>*\<^sup>* d d' \<Longrightarrow> arbiter d' = arbiter d"
  by (induction rule: rtranclp_induct) (simp_all add: handle_change_arbiter)

lemma handles_change_arbiter:
  "handles_change s s' \<Longrightarrow> arbiter (handles s' h) = arbiter (handles s h)"
  by (simp add: handles_change_def handle_changes_arbiter)

lemma handle_change_refcnt:
  "handle_change d d' \<Longrightarrow> refcnt d' = refcnt d \<or> (refcnt d \<le> 1 \<and> refcnt d' \<le> 1)"
  by (induction rule: handle_change.induct) simp_all

lemma handle_changes_refcnt:
  "handle_change\<^sup>*\<^sup>* d d' \<Longrightarrow> refcnt d' = refcnt d \<or> (refcnt d \<le> 1 \<and> refcnt d' \<le> 1)"
proof (induction rule: rtranclp_induct)
  case base
  then show ?case by simp
next
  case (step y z)
  from handle_change_refcnt[OF step(2)] step(3) show ?case by auto
qed

lemma word_le_one: "(x :: 32 word) \<le> 1 \<longleftrightarrow> x = 0 \<or> x = 1"
  by (auto simp: word_le_nat_alt word_unat_eq_iff)

lemma handle_change_list:
  "handle_change d d' \<Longrightarrow> arbitered_req_list d \<noteq> Some [] \<Longrightarrow> arbitered_req_list d' \<noteq> Some []"
  by (induction rule: handle_change.induct)
     (auto simp: requester_list_push_front_def split: option.splits if_splits)

lemma handle_changes_list:
  "handle_change\<^sup>*\<^sup>* d d' \<Longrightarrow> arbitered_req_list d \<noteq> Some [] \<Longrightarrow>
   arbitered_req_list d' \<noteq> Some []"
  by (induction rule: rtranclp_induct) (simp_all add: handle_change_list)

section \<open>The claims\<close>

text \<open>
  C7. A notification on a handle whose list of arbitered requesters is empty (the list
  pointer is NULL, or the list has no element) changes no handle and pushes no task: it
  takes and releases the mutex of the arbiter and returns 1.
\<close>

theorem notify_empty_list_no_effect:
  assumes "arbiter (handles s h) = Some a"
    and "arbitered_req_list (handles s h) = None \<or> arbitered_req_list (handles s h) = Some []"
  shows "\<exists>s'. starpu_notify_arbitered_dependencies s h = Inr (s', 1) \<and>
           handles s' = handles s \<and> pushed s' = pushed s \<and> jobs s' = jobs s \<and>
           trace s' = trace s @ [Mutex_lock a, Mutex_unlock a]"
  using assms by (auto simp: starpu_notify_arbitered_dependencies_def)

theorem notify_empty_list_no_effect_witness:
  "arbiter (handles example_state 1) = Some 7 \<and>
   arbitered_req_list (handles example_state 1) = None \<and>
   map_sum id snd (starpu_notify_arbitered_dependencies example_state 1) = Inr 1 \<and>
   handles (fst (projr (starpu_notify_arbitered_dependencies example_state 1)))
     = handles example_state \<and>
   pushed (fst (projr (starpu_notify_arbitered_dependencies example_state 1))) = []"
  using notify_empty_list_no_effect[of example_state 1 7]
  by (auto simp: example_state_def fresh_handle_def)

text \<open>
  C6. \<open>starpu_data_assign_arbiter\<close> sets the arbiter of the handle exactly when the
  handle has no arbiter and its \<open>refcnt\<close> and \<open>busy_count\<close> are 0, and fails an
  assertion otherwise; a submission and a notification leave the arbiter of every
  handle as it is.
\<close>

theorem assign_arbiter_only_once:
  "starpu_data_assign_arbiter s h a =
     (if arbiter (handles s h) = None \<and> refcnt (handles s h) = 0 \<and>
         busy_count (handles s h) = 0
      then Inr (set_handle h ((handles s h)\<lparr>arbiter := a\<rparr>) s)
      else Inl Assertion_failed) \<and>
   (starpu_submit_job_enforce_arbitered_deps s jb buf n = Inr (sa, ra) \<longrightarrow>
      arbiter (handles sa h') = arbiter (handles s h')) \<and>
   (starpu_notify_arbitered_dependencies s hn = Inr (sb, rb) \<longrightarrow>
      arbiter (handles sb h') = arbiter (handles s h'))"
  by (auto simp: starpu_data_assign_arbiter_def
      dest!: submit_change notify_change handles_change_arbiter)

theorem assign_arbiter_only_once_witness:
  "starpu_data_assign_arbiter example_state 3 (Some 7)
     = Inr (set_handle 3 (fresh_handle (Some 7)) example_state) \<and>
   starpu_data_assign_arbiter waiting_state 1 (Some 8) = Inl Assertion_failed \<and>
   map_sum id snd (starpu_submit_job_enforce_arbitered_deps example_state 10 0 2) = Inr 0 \<and>
   arbiter (handles (fst (projr (starpu_submit_job_enforce_arbitered_deps example_state 10 0 2))) 1)
     = Some 7 \<and>
   map_sum id snd (starpu_notify_arbitered_dependencies waiting_state 1) = Inr 0 \<and>
   arbiter (handles (fst (projr (starpu_notify_arbitered_dependencies waiting_state 1))) 1)
     = Some 7"
  using assign_arbiter_only_once[where s = example_state and h = 3 and a = "Some 7"
      and jb = 10 and buf = 0 and n = 2 and h' = 1 and hn = 1
      and sa = "fst (projr (starpu_submit_job_enforce_arbitered_deps example_state 10 0 2))"
      and ra = "snd (projr (starpu_submit_job_enforce_arbitered_deps example_state 10 0 2))"
      and sb = "fst (projr (starpu_notify_arbitered_dependencies example_state 1))"
      and rb = "snd (projr (starpu_notify_arbitered_dependencies example_state 1))"]
    assign_arbiter_only_once[where s = waiting_state and h = 1 and a = "Some 8"
      and jb = 11 and buf = 0 and n = 1 and h' = 1 and hn = 1
      and sa = "fst (projr (starpu_submit_job_enforce_arbitered_deps waiting_state 11 0 1))"
      and ra = "snd (projr (starpu_submit_job_enforce_arbitered_deps waiting_state 11 0 1))"
      and sb = "fst (projr (starpu_notify_arbitered_dependencies waiting_state 1))"
      and rb = "snd (projr (starpu_notify_arbitered_dependencies waiting_state 1))"]
  by (simp add: run_simps)

text \<open>
  C9. The arbiter code changes \<open>refcnt\<close> only between 0 and 1: an arbiter is assigned
  at \<open>refcnt\<close> 0, and after a submission or a notification the \<open>refcnt\<close> of a handle
  is what it was or both values are at most 1, so a handle whose \<open>refcnt\<close> has grown
  had 0 and has 1.
\<close>

theorem arbitered_refcnt_zero_or_one:
  "(starpu_data_assign_arbiter s h a = Inr sz \<longrightarrow> refcnt (handles sz h) = 0) \<and>
   (starpu_submit_job_enforce_arbitered_deps s jb buf n = Inr (sa, ra) \<longrightarrow>
      (refcnt (handles s h') \<le> 1 \<longrightarrow> refcnt (handles sa h') \<le> 1) \<and>
      (refcnt (handles s h') < refcnt (handles sa h') \<longrightarrow>
         refcnt (handles s h') = 0 \<and> refcnt (handles sa h') = 1)) \<and>
   (starpu_notify_arbitered_dependencies s hn = Inr (sb, rb) \<longrightarrow>
      (refcnt (handles s h') \<le> 1 \<longrightarrow> refcnt (handles sb h') \<le> 1) \<and>
      (refcnt (handles s h') < refcnt (handles sb h') \<longrightarrow>
         refcnt (handles s h') = 0 \<and> refcnt (handles sb h') = 1))"
proof -
  have grow: "refcnt d' = refcnt d \<or> (refcnt d \<le> 1 \<and> refcnt d' \<le> 1) \<Longrightarrow>
      (refcnt d \<le> 1 \<longrightarrow> refcnt d' \<le> 1) \<and>
      (refcnt d < refcnt d' \<longrightarrow> refcnt d = 0 \<and> refcnt d' = 1)"
    for d d' :: starpu_data_state
    by (auto simp: word_le_one)
  have "starpu_data_assign_arbiter s h a = Inr sz \<longrightarrow> refcnt (handles sz h) = 0"
    by (auto simp: starpu_data_assign_arbiter_def split: if_splits)
  moreover have "handles_change s s' \<Longrightarrow>
      (refcnt (handles s h') \<le> 1 \<longrightarrow> refcnt (handles s' h') \<le> 1) \<and>
      (refcnt (handles s h') < refcnt (handles s' h') \<longrightarrow>
         refcnt (handles s h') = 0 \<and> refcnt (handles s' h') = 1)" for s'
    by (rule grow) (simp add: handles_change_def handle_changes_refcnt)
  ultimately show ?thesis
    using submit_change[of s jb buf n sa ra] notify_change[of s hn sb rb] by blast
qed

theorem arbitered_refcnt_zero_or_one_witness:
  "refcnt (handles (projr (starpu_data_assign_arbiter example_state 3 (Some 7))) 3) = 0 \<and>
   map_sum id snd (starpu_submit_job_enforce_arbitered_deps example_state 10 0 2) = Inr 0 \<and>
   refcnt (handles example_state 1) = 0 \<and>
   refcnt (handles (fst (projr (starpu_submit_job_enforce_arbitered_deps example_state 10 0 2))) 1)
     = 1 \<and>
   map_sum id snd (starpu_notify_arbitered_dependencies waiting_state 1) = Inr 0 \<and>
   refcnt (handles waiting_state 1) = 0 \<and>
   refcnt (handles (fst (projr (starpu_notify_arbitered_dependencies waiting_state 1))) 1) = 1"
  using arbitered_refcnt_zero_or_one[where s = example_state and h = 3 and a = "Some 7"
      and sz = "projr (starpu_data_assign_arbiter example_state 3 (Some 7))"
      and jb = 10 and buf = 0 and n = 2 and h' = 1 and hn = 1
      and sa = "fst (projr (starpu_submit_job_enforce_arbitered_deps example_state 10 0 2))"
      and ra = "snd (projr (starpu_submit_job_enforce_arbitered_deps example_state 10 0 2))"
      and sb = "fst (projr (starpu_notify_arbitered_dependencies example_state 1))"
      and rb = "snd (projr (starpu_notify_arbitered_dependencies example_state 1))"]
    arbitered_refcnt_zero_or_one[where s = waiting_state and h = 3 and a = "Some 7"
      and sz = "projr (starpu_data_assign_arbiter waiting_state 3 (Some 7))"
      and jb = 11 and buf = 0 and n = 1 and h' = 1 and hn = 1
      and sa = "fst (projr (starpu_submit_job_enforce_arbitered_deps waiting_state 11 0 1))"
      and ra = "snd (projr (starpu_submit_job_enforce_arbitered_deps waiting_state 11 0 1))"
      and sb = "fst (projr (starpu_notify_arbitered_dependencies waiting_state 1))"
      and rb = "snd (projr (starpu_notify_arbitered_dependencies waiting_state 1))"]
  by (simp add: run_simps)

section \<open>Locks and pushes\<close>

lemma held_after_append: "held_after H (es @ es') = held_after (held_after H es) es'"
  by (induction H es rule: held_after.induct) simp_all

lemma pushes_unlocked_append:
  "pushes_unlocked H (es @ es') \<longleftrightarrow>
     pushes_unlocked H es \<and> pushes_unlocked (held_after H es) es'"
  by (induction H es rule: pushes_unlocked.induct) simp_all

lemma quiet_Nil [simp]: "quiet []"
  by (simp add: quiet_def)

lemma quiet_append: "quiet es \<Longrightarrow> quiet es' \<Longrightarrow> quiet (es @ es')"
  by (simp add: quiet_def held_after_append pushes_unlocked_append)

lemma quiet_spin [simp]: "quiet [Spin_lock h, Spin_unlock h]"
  by (simp add: quiet_def)

lemma safe_Nil [simp]: "safe []"
  by (simp add: safe_def)

lemma safe_push [simp]: "safe [Push_task jb]"
  by (simp add: safe_def)

lemma safe_append: "safe es \<Longrightarrow> safe es' \<Longrightarrow> safe (es @ es')"
  by (simp add: safe_def held_after_append pushes_unlocked_append)

lemma safe_mutex: "quiet es \<Longrightarrow> safe (Mutex_lock a # es @ [Mutex_unlock a])"
  by (simp add: safe_def quiet_def held_after_append pushes_unlocked_append)

lemma quiet_run_refl [simp]: "quiet_run s s"
  by (simp add: quiet_run_def)

lemma quiet_run_trans: "quiet_run s sa \<Longrightarrow> quiet_run sa sb \<Longrightarrow> quiet_run s sb"
  by (auto simp: quiet_run_def intro: quiet_append)

lemma quiet_run_lock_unlock [simp]: "quiet_run s (lock_unlock s jb i)"
  by (simp add: quiet_run_def lock_unlock_def)

lemma quiet_run_steps [simp]:
  "quiet_run s (take_reference s jb i)"
  "quiet_run s (drop_reference s jb i)"
  "quiet_run s (record_request s jb i k)"
  "quiet_run s (mark_taken s jb i)"
  by (simp_all add: quiet_run_def lock_unlock_def)

lemma quiet_run_remove_requester: "remove_requester s jb i = Inr s' \<Longrightarrow> quiet_run s s'"
  by (simp add: quiet_run_def remove_requester_fields lock_unlock_def)

lemma try_acquire_quiet:
  assumes "try_acquire s jb a i n = (s', k, ok)"
  shows "quiet_run s s'"
  using assms
  by (induction rule: try_acquire_induct_rel)
     (auto intro: quiet_run_trans[OF quiet_run_steps(1)])

lemma notify_try_acquire_quiet:
  assumes "notify_try_acquire s jb a i n = (s', k, ok)"
  shows "quiet_run s s'"
  using assms
  by (induction rule: notify_try_acquire_induct_rel)
     (auto intro: quiet_run_trans[OF quiet_run_steps(4)])

lemma cancel_taken_quiet:
  assumes "cancel_taken s jb a i n = Inr s'"
  shows "quiet_run s s'"
  using assms
  by (induction rule: cancel_taken_induct_rel)
     (auto intro: quiet_run_trans[OF quiet_run_steps(2)])

lemma record_requests_quiet:
  assumes "record_requests s jb a i n k = s'"
  shows "quiet_run s s'"
  using assms
  by (induction rule: record_requests_induct_rel)
     (auto intro: quiet_run_trans[OF quiet_run_steps(3)])

lemma remove_requesters_quiet:
  assumes "remove_requesters s jb a i n = Inr (s', k)"
  shows "quiet_run s s'"
  using assms
  by (induction rule: remove_requesters_induct_rel)
     (auto intro: quiet_run_trans[OF quiet_run_remove_requester])

lemma safe_run_trans: "safe_run s sa \<Longrightarrow> safe_run sa sb \<Longrightarrow> safe_run s sb"
  by (auto simp: safe_run_def intro: safe_append)

lemma safe_run_mutex:
  assumes "quiet_run (log_events [Mutex_lock a] s) s'"
  shows "safe_run s (log_events [Mutex_unlock a] s')"
proof -
  from assms obtain es where "trace s' = trace s @ [Mutex_lock a] @ es" and "quiet es"
    by (auto simp: quiet_run_def)
  then have "trace (log_events [Mutex_unlock a] s') = trace s @ (Mutex_lock a # es @ [Mutex_unlock a])"
    and "safe (Mutex_lock a # es @ [Mutex_unlock a])"
    by (simp_all add: safe_mutex)
  then show ?thesis
    unfolding safe_run_def by blast
qed

lemma safe_run_push: "safe_run s (starpu_push_task jb s)"
  by (simp add: safe_run_def)

lemma submit_safe:
  assumes "starpu_submit_job_enforce_arbitered_deps s jb buf n = Inr (s', res)"
  shows "safe_run s s'"
  using assms
proof (induction rule: submit_induct_rel)
  case (park s buf a sa k sb)
  have "quiet_run (log_events [Mutex_lock a] s) sa"
    using park(2) by (rule try_acquire_quiet)
  moreover have "quiet_run sa sb"
    using park(3) by (rule cancel_taken_quiet)
  moreover have "quiet_run sb (record_requests sb jb a buf n k)"
    by (rule record_requests_quiet[OF refl])
  ultimately have "quiet_run (log_events [Mutex_lock a] s) (record_requests sb jb a buf n k)"
    by (blast intro: quiet_run_trans)
  then show ?case
    unfolding park(4) by (rule safe_run_mutex)
next
  case (next_group s buf a sa k)
  have "quiet_run (log_events [Mutex_lock a] s) sa"
    using next_group(2) by (rule try_acquire_quiet)
  then have "safe_run s (log_events [Mutex_unlock a] sa)"
    by (rule safe_run_mutex)
  then show ?case
    using next_group(6) by (rule safe_run_trans)
next
  case (push s buf a sa k)
  have "quiet_run (log_events [Mutex_lock a] s) sa"
    using push(2) by (rule try_acquire_quiet)
  then have "safe_run s (log_events [Mutex_unlock a] sa)"
    by (rule safe_run_mutex)
  then show ?case
    unfolding push(4) using safe_run_push by (rule safe_run_trans)
qed

lemma unlocking_run_after_quiet:
  "quiet_run s sa \<Longrightarrow> unlocking_run a sa s' \<Longrightarrow> unlocking_run a s s'"
  by (auto simp: unlocking_run_def intro: quiet_run_trans)

lemma safe_run_refl [simp]: "safe_run s s"
  by (simp add: safe_run_def)

lemma promote_unlocking:
  assumes "promote s jb a nb n = Inr (s', res)"
  shows "unlocking_run a s s'"
proof -
  from assms obtain sb k where r: "remove_requesters s jb a nb n = Inr (sb, k)"
    by (auto simp: promote_def split: sum.splits)
  have q: "quiet_run s sb"
    using r by (rule remove_requesters_quiet)
  have "safe_run (log_events [Mutex_unlock a] sb) s'"
  proof (cases "k < n")
    case True
    with assms r obtain res' where
      "starpu_submit_job_enforce_arbitered_deps (log_events [Mutex_unlock a] sb) jb k n
         = Inr (s', res')"
      by (auto simp: promote_def split: sum.splits)
    then show ?thesis by (rule submit_safe)
  next
    case False
    with assms r have "s' = starpu_push_task jb (log_events [Mutex_unlock a] sb)"
      by (auto simp: promote_def)
    then show ?thesis by (simp add: safe_run_push)
  qed
  with q show ?thesis
    unfolding unlocking_run_def by blast
qed

lemma notify_scan_unlocking:
  assumes "notify_scan s a rs = Inr (s', res)"
  shows "unlocking_run a s s'"
  using assms
proof (induction rule: notify_scan_induct_rel)
  case (empty s)
  then show ?case
    by (auto simp: unlocking_run_def intro!: exI[of _ s])
next
  case (promote s r rest sa k)
  from notify_try_acquire_quiet[OF promote(1)] promote_unlocking[OF promote(2)]
  show ?case by (rule unlocking_run_after_quiet)
next
  case (fail s r rest sa k sb)
  from notify_try_acquire_quiet[OF fail(1)] cancel_taken_quiet[OF fail(2)]
  have "quiet_run s sb" by (rule quiet_run_trans)
  then show ?case using fail(4) by (rule unlocking_run_after_quiet)
qed

lemma unlocking_run_safe:
  assumes "unlocking_run a (log_events [Mutex_lock a] s) s'"
  shows "safe_run s s'"
proof -
  from assms obtain sm where "quiet_run (log_events [Mutex_lock a] s) sm"
    and "safe_run (log_events [Mutex_unlock a] sm) s'"
    by (auto simp: unlocking_run_def)
  then show ?thesis
    by (blast intro: safe_run_trans safe_run_mutex)
qed

lemma notify_safe:
  assumes "starpu_notify_arbitered_dependencies s h = Inr (s', res)"
  shows "safe_run s s'"
proof -
  from assms obtain a where a: "arbiter (handles s h) = Some a"
    by (auto simp: starpu_notify_arbitered_dependencies_def split: option.splits)
  show ?thesis
  proof (cases "arbitered_req_list (handles s h)")
    case None
    with assms a have "s' = log_events [Mutex_unlock a] (log_events [Mutex_lock a] s)"
      by (auto simp: starpu_notify_arbitered_dependencies_def log_events_def)
    then show ?thesis
      by (simp add: safe_run_mutex)
  next
    case (Some l)
    with assms a have "notify_scan (log_events [Mutex_lock a] s) a l = Inr (s', res)"
      by (simp add: starpu_notify_arbitered_dependencies_def)
    then show ?thesis
      by (intro unlocking_run_safe notify_scan_unlocking)
  qed
qed

text \<open>
  C8. Among the events of a submission and of a notification, every push of a task
  happens while none of the locks taken by the function is held (the mutex of the
  arbiter has been released, and no \<open>header_lock\<close> is held), and the function ends
  with none of them held.
\<close>

theorem push_with_no_lock_held:
  "(starpu_submit_job_enforce_arbitered_deps s jb buf n = Inr (sa, ra) \<longrightarrow>
      (\<exists>es. trace sa = trace s @ es \<and> pushes_unlocked [] es \<and> held_after [] es = [])) \<and>
   (starpu_notify_arbitered_dependencies s hn = Inr (sb, rb) \<longrightarrow>
      (\<exists>es. trace sb = trace s @ es \<and> pushes_unlocked [] es \<and> held_after [] es = []))"
  using submit_safe[of s jb buf n sa ra] notify_safe[of s hn sb rb]
  by (auto simp: safe_run_def safe_def)

theorem push_with_no_lock_held_witness:
  "trace (fst (projr (starpu_submit_job_enforce_arbitered_deps example_state 14 0 2)))
     = [Mutex_lock 7, Spin_lock 1, Spin_unlock 1, Mutex_unlock 7,
        Mutex_lock 8, Spin_lock 4, Spin_unlock 4, Mutex_unlock 8, Push_task 14] \<and>
   trace (fst (projr (starpu_notify_arbitered_dependencies waiting_state 1)))
     = [Mutex_lock 7, Spin_lock 1, Spin_unlock 1, Spin_lock 1, Spin_unlock 1,
        Mutex_unlock 7, Push_task 12] \<and>
   pushes_unlocked []
     (trace (fst (projr (starpu_submit_job_enforce_arbitered_deps example_state 14 0 2)))) \<and>
   pushes_unlocked []
     (trace (fst (projr (starpu_notify_arbitered_dependencies waiting_state 1))))"
  using push_with_no_lock_held[where s = example_state and jb = 14 and buf = 0 and n = 2
      and hn = 1
      and sa = "fst (projr (starpu_submit_job_enforce_arbitered_deps example_state 14 0 2))"
      and ra = "snd (projr (starpu_submit_job_enforce_arbitered_deps example_state 14 0 2))"
      and sb = "fst (projr (starpu_notify_arbitered_dependencies example_state 1))"
      and rb = "snd (projr (starpu_notify_arbitered_dependencies example_state 1))"]
    push_with_no_lock_held[where s = waiting_state and jb = 11 and buf = 0 and n = 1
      and hn = 1
      and sa = "fst (projr (starpu_submit_job_enforce_arbitered_deps waiting_state 11 0 1))"
      and ra = "snd (projr (starpu_submit_job_enforce_arbitered_deps waiting_state 11 0 1))"
      and sb = "fst (projr (starpu_notify_arbitered_dependencies waiting_state 1))"
      and rb = "snd (projr (starpu_notify_arbitered_dependencies waiting_state 1))"]
  by (simp add: run_simps)

section \<open>The references taken by a pass\<close>

lemma step_buffers [simp]:
  "JOB_GET_ORDERED_BUFFER_HANDLE (take_reference s jb i) = JOB_GET_ORDERED_BUFFER_HANDLE s"
  "JOB_GET_ORDERED_BUFFER_HANDLE (lock_unlock s jb i) = JOB_GET_ORDERED_BUFFER_HANDLE s"
  "JOB_GET_ORDERED_BUFFER_HANDLE (drop_reference s jb i) = JOB_GET_ORDERED_BUFFER_HANDLE s"
  "JOB_GET_ORDERED_BUFFER_HANDLE (record_request s jb i k) = JOB_GET_ORDERED_BUFFER_HANDLE s"
  "JOB_GET_ORDERED_BUFFER_HANDLE (mark_taken s jb i) = JOB_GET_ORDERED_BUFFER_HANDLE s"
  "JOB_GET_ORDERED_BUFFER_MODE (take_reference s jb i) = JOB_GET_ORDERED_BUFFER_MODE s"
  "JOB_GET_ORDERED_BUFFER_MODE (lock_unlock s jb i) = JOB_GET_ORDERED_BUFFER_MODE s"
  "JOB_GET_ORDERED_BUFFER_MODE (drop_reference s jb i) = JOB_GET_ORDERED_BUFFER_MODE s"
  "JOB_GET_ORDERED_BUFFER_MODE (record_request s jb i k) = JOB_GET_ORDERED_BUFFER_MODE s"
  "JOB_GET_ORDERED_BUFFER_MODE (mark_taken s jb i) = JOB_GET_ORDERED_BUFFER_MODE s"
  "already_requested (take_reference s jb i) = already_requested s"
  "already_requested (lock_unlock s jb i) = already_requested s"
  "already_requested (drop_reference s jb i) = already_requested s"
  "already_requested (record_request s jb i k) = already_requested s"
  "already_requested (mark_taken s jb i) = already_requested s"
  by (simp_all add: same_jobs[of "take_reference s jb i" s] same_jobs[of "lock_unlock s jb i" s]
      same_jobs[of "drop_reference s jb i" s] same_jobs[of "record_request s jb i k" s]
      same_jobs[of "mark_taken s jb i" s])

lemma step_handles:
  "handles (take_reference s jb i) =
     (handles s)(JOB_GET_ORDERED_BUFFER_HANDLE s jb i :=
        (buffer_handle s jb i)\<lparr>refcnt := refcnt (buffer_handle s jb i) + 1,
          busy_count := busy_count (buffer_handle s jb i) + 1,
          current_mode := JOB_GET_ORDERED_BUFFER_MODE s jb i\<rparr>)"
  "handles (drop_reference s jb i) =
     (handles s)(JOB_GET_ORDERED_BUFFER_HANDLE s jb i :=
        (buffer_handle s jb i)\<lparr>refcnt := refcnt (buffer_handle s jb i) - 1\<rparr>)"
  "handles (mark_taken s jb i) =
     (handles s)(JOB_GET_ORDERED_BUFFER_HANDLE s jb i :=
        (buffer_handle s jb i)\<lparr>refcnt := refcnt (buffer_handle s jb i) + 1,
          current_mode := JOB_GET_ORDERED_BUFFER_MODE s jb i\<rparr>)"
  "handles (record_request s jb i k) =
     (handles s)(JOB_GET_ORDERED_BUFFER_HANDLE s jb i :=
        (buffer_handle s jb i)\<lparr>arbitered_req_list :=
           requester_list_push_front (arbitered_req_list (buffer_handle s jb i))
             (requester_new (JOB_GET_ORDERED_BUFFER_MODE s jb i) jb i),
           busy_count := (if k \<le> i then busy_count (buffer_handle s jb i) + 1
                          else busy_count (buffer_handle s jb i))\<rparr>)"
  by (simp_all add: take_reference_def drop_reference_def mark_taken_def record_request_def)

lemma try_acquire_busy_untouched:
  assumes "try_acquire s jb a i n = (s', k, ok)" and "refcnt (handles s h) \<noteq> 0"
  shows "handles s' h = handles s h"
  using assms
  by (induction rule: try_acquire_induct_rel)
     (auto simp: step_handles buffer_handle_def split: if_splits)

lemma try_acquire_other_untouched:
  assumes "try_acquire s jb a i n = (s', k, ok)"
    and "\<forall>i'. i \<le> i' \<and> i' < k \<and> \<not> already_requested s jb i' \<longrightarrow>
           JOB_GET_ORDERED_BUFFER_HANDLE s jb i' \<noteq> h"
  shows "handles s' h = handles s h"
  using assms
proof (induction rule: try_acquire_induct_rel)
  case (take s i)
  from take(5) have "i + 1 \<le> k" by (rule try_acquire_index_mono)
  with take show ?case
    by (auto simp: step_handles)
qed auto

lemma try_acquire_taken:
  assumes "try_acquire s jb a i n = (s', k, ok)"
    and "i \<le> i'" and "i' < k" and "\<not> already_requested s jb i'"
  shows "arbiter (buffer_handle s jb i') = Some a \<and> refcnt (buffer_handle s jb i') = 0 \<and>
         handles s' (JOB_GET_ORDERED_BUFFER_HANDLE s jb i') =
           (buffer_handle s jb i')\<lparr>refcnt := 1,
              busy_count := busy_count (buffer_handle s jb i') + 1,
              current_mode := JOB_GET_ORDERED_BUFFER_MODE s jb i'\<rparr>"
  using assms
proof (induction rule: try_acquire_induct_rel)
  case (skip s i)
  then have "i \<noteq> i'" by auto
  with skip show ?case by simp
next
  case (take s i)
  let ?h = "JOB_GET_ORDERED_BUFFER_HANDLE s jb i"
  show ?case
  proof (cases "i' = i")
    case True
    have "refcnt (handles (take_reference s jb i) ?h) \<noteq> 0"
      using take(4) by (simp add: step_handles)
    with take(5) have "handles s' ?h = handles (take_reference s jb i) ?h"
      by (rule try_acquire_busy_untouched)
    with True take(3,4) show ?thesis
      by (simp add: step_handles)
  next
    case False
    with take have ih: "arbiter (buffer_handle (take_reference s jb i) jb i') = Some a"
      "refcnt (buffer_handle (take_reference s jb i) jb i') = 0"
      "handles s' (JOB_GET_ORDERED_BUFFER_HANDLE s jb i') =
         (buffer_handle (take_reference s jb i) jb i')\<lparr>refcnt := 1,
            busy_count := busy_count (buffer_handle (take_reference s jb i) jb i') + 1,
            current_mode := JOB_GET_ORDERED_BUFFER_MODE s jb i'\<rparr>"
      by simp_all
    from ih(2) take(4) have "JOB_GET_ORDERED_BUFFER_HANDLE s jb i' \<noteq> ?h"
      by (auto simp: buffer_handle_def step_handles)
    then have "buffer_handle (take_reference s jb i) jb i' = buffer_handle s jb i'"
      by (simp add: buffer_handle_def step_handles)
    with ih show ?thesis by simp
  qed
qed auto

lemma try_acquire_stops:
  assumes "try_acquire s jb a i n = (s', k, ok)" and "\<not> ok"
  shows "k < n \<and> \<not> already_requested s jb k \<and>
         arbiter (buffer_handle s' jb k) = Some a \<and> refcnt (buffer_handle s' jb k) \<noteq> 0"
  using assms
  by (induction rule: try_acquire_induct_rel) (auto simp: buffer_handle_def)

lemma try_acquire_covers:
  assumes "try_acquire s jb a i n = (s', k, ok)" and "ok"
  shows "\<not> k < n \<or> (\<not> already_requested s jb k \<and> arbiter (buffer_handle s' jb k) \<noteq> Some a)"
  using assms
  by (induction rule: try_acquire_induct_rel) (auto simp: buffer_handle_def)

text \<open>
  C1. In the first loop of the submission, from buffer \<open>buf\<close>: every buffer before the
  index where the loop stops, other than a repetition of the handle before it, is of
  the arbiter, had \<open>refcnt\<close> 0 and ends with \<open>refcnt\<close> 1, \<open>busy_count\<close> one more and
  the mode of the buffer as \<open>current_mode\<close>; no other handle is changed; and when the
  loop reports a failure it has stopped at a handle of the arbiter whose \<open>refcnt\<close> is
  not 0, with no reference taken on that attempt. When the loop reports a success it
  has covered the whole group: it has stopped after the last buffer of the job, or
  at the first buffer of another arbiter. The loop never stops before \<open>buf\<close>.
\<close>

theorem try_acquire_takes_free_handles:
  assumes "try_acquire s jb a buf n = (s', k, ok)"
  shows "(\<forall>i. buf \<le> i \<and> i < k \<and> \<not> already_requested s jb i \<longrightarrow>
            arbiter (buffer_handle s jb i) = Some a \<and> refcnt (buffer_handle s jb i) = 0 \<and>
            handles s' (JOB_GET_ORDERED_BUFFER_HANDLE s jb i) =
              (buffer_handle s jb i)\<lparr>refcnt := 1,
                 busy_count := busy_count (buffer_handle s jb i) + 1,
                 current_mode := JOB_GET_ORDERED_BUFFER_MODE s jb i\<rparr>) \<and>
         (\<forall>h. (\<forall>i. buf \<le> i \<and> i < k \<and> \<not> already_requested s jb i \<longrightarrow>
                  JOB_GET_ORDERED_BUFFER_HANDLE s jb i \<noteq> h) \<longrightarrow>
              handles s' h = handles s h) \<and>
         (\<not> ok \<longrightarrow> k < n \<and> \<not> already_requested s jb k \<and>
            arbiter (buffer_handle s' jb k) = Some a \<and> refcnt (buffer_handle s' jb k) \<noteq> 0) \<and>
         (ok \<longrightarrow> \<not> k < n \<or>
            (\<not> already_requested s jb k \<and> arbiter (buffer_handle s' jb k) \<noteq> Some a)) \<and>
         buf \<le> k"
  using try_acquire_taken[OF assms] try_acquire_other_untouched[OF assms]
    try_acquire_stops[OF assms] try_acquire_covers[OF assms] try_acquire_index_mono[OF assms]
  by blast

theorem try_acquire_takes_free_handles_witness:
  "snd (try_acquire waiting_state 10 7 0 2) = (1, False) \<and>
   refcnt (handles waiting_state 1) = 0 \<and>
   handles (fst (try_acquire waiting_state 10 7 0 2)) 1 =
     \<lparr>refcnt = 1, busy_count = 2, current_mode = 2, arbiter = Some 7,
      arbitered_req_list = Some [requester_new 2 12 0]\<rparr> \<and>
   handles (fst (try_acquire waiting_state 10 7 0 2)) 2 = handles waiting_state 2 \<and>
   refcnt (handles waiting_state 2) = 1 \<and>
   snd (try_acquire example_state 14 7 0 2) = (1, True) \<and>
   handles (fst (try_acquire example_state 14 7 0 2)) 1 =
     \<lparr>refcnt = 1, busy_count = 1, current_mode = 2, arbiter = Some 7,
      arbitered_req_list = None\<rparr> \<and>
   arbiter (buffer_handle (fst (try_acquire example_state 14 7 0 2)) 14 1) = Some 8 \<and>
   snd (try_acquire example_state 10 7 0 2) = (2, True) \<and>
   refcnt (handles (fst (try_acquire example_state 10 7 0 2)) 1) = 1 \<and>
   refcnt (handles (fst (try_acquire example_state 10 7 0 2)) 2) = 1"
  using try_acquire_takes_free_handles[where s = waiting_state and jb = 10 and a = 7
      and buf = 0 and n = 2 and s' = "fst (try_acquire waiting_state 10 7 0 2)"
      and k = 1 and ok = False]
    try_acquire_takes_free_handles[where s = example_state and jb = 14 and a = 7
      and buf = 0 and n = 2 and s' = "fst (try_acquire example_state 14 7 0 2)"
      and k = 1 and ok = True]
    try_acquire_takes_free_handles[where s = example_state and jb = 10 and a = 7
      and buf = 0 and n = 2 and s' = "fst (try_acquire example_state 10 7 0 2)"
      and k = 2 and ok = True]
  by (simp add: run_simps)

section \<open>The requesters recorded by a submission\<close>

lemma requesters_nonempty: "requesters d \<noteq> [] \<Longrightarrow> arbitered_req_list d = Some (requesters d)"
  by (auto simp: requesters_def split: option.splits)

lemma record_request_requesters:
  "requesters (handles (record_request s jb i k) h) =
     (if h = JOB_GET_ORDERED_BUFFER_HANDLE s jb i
      then requester_new (JOB_GET_ORDERED_BUFFER_MODE s jb i) jb i # requesters (handles s h)
      else requesters (handles s h))"
  by (auto simp: step_handles requesters_def requester_list_push_front_def buffer_handle_def
      split: option.splits)

lemma record_request_arbiter [simp]:
  "arbiter (handles (record_request s jb i k) h) = arbiter (handles s h)"
  by (simp add: step_handles buffer_handle_def)

lemma record_requests_in_front:
  assumes "record_requests s jb a i n k = s'"
  shows "\<exists>rs. (\<forall>r\<in>set rs. j r = jb) \<and> requesters (handles s' h) = rs @ requesters (handles s h)"
  using assms
proof (induction rule: record_requests_induct_rel)
  case (park s i)
  then obtain rs where rs: "\<forall>r\<in>set rs. j r = jb"
    "requesters (handles s' h) = rs @ requesters (handles (record_request s jb i k) h)"
    by blast
  show ?case
  proof (cases "h = JOB_GET_ORDERED_BUFFER_HANDLE s jb i")
    case True
    let ?r = "requester_new (JOB_GET_ORDERED_BUFFER_MODE s jb i) jb i"
    from True rs have "requesters (handles s' h) = (rs @ [?r]) @ requesters (handles s h)"
      by (simp add: record_request_requesters)
    moreover have "\<forall>r\<in>set (rs @ [?r]). j r = jb"
      using rs(1) by (simp add: requester_new_def)
    ultimately show ?thesis by blast
  next
    case False
    with rs show ?thesis
      by (auto simp: record_request_requesters)
  qed
qed auto

lemma record_requests_group:
  assumes "record_requests s jb a i n k = s'"
    and "i \<le> i'" and "i' < n"
    and "\<forall>m. i \<le> m \<and> m \<le> i' \<longrightarrow> arbiter (buffer_handle s jb m) = Some a"
  shows "\<exists>rs. rs \<noteq> [] \<and> (\<forall>r\<in>set rs. j r = jb) \<and>
           requesters (handles s' (JOB_GET_ORDERED_BUFFER_HANDLE s jb i')) =
             rs @ requesters (handles s (JOB_GET_ORDERED_BUFFER_HANDLE s jb i'))"
  using assms
proof (induction rule: record_requests_induct_rel)
  case (stop s i)
  then show ?case by simp
next
  case (other s i)
  then show ?case by auto
next
  case (park s i)
  let ?h = "JOB_GET_ORDERED_BUFFER_HANDLE s jb i'"
  let ?r = "requester_new (JOB_GET_ORDERED_BUFFER_MODE s jb i) jb i"
  show ?case
  proof (cases "i' = i")
    case True
    from record_requests_in_front[OF park(3), of ?h] obtain rs where
      rs: "\<forall>r\<in>set rs. j r = jb"
      "requesters (handles s' ?h) = rs @ requesters (handles (record_request s jb i k) ?h)"
      by blast
    from True rs(2) have "requesters (handles s' ?h) = (rs @ [?r]) @ requesters (handles s ?h)"
      by (simp add: record_request_requesters)
    moreover have "\<forall>r\<in>set (rs @ [?r]). j r = jb"
      using rs(1) by (simp add: requester_new_def)
    ultimately show ?thesis by blast
  next
    case False
    with park(5) have "i + 1 \<le> i'" by simp
    moreover have "\<forall>m. i + 1 \<le> m \<and> m \<le> i' \<longrightarrow>
        arbiter (buffer_handle (record_request s jb i k) jb m) = Some a"
      using park(7) by (simp add: buffer_handle_def)
    ultimately obtain rs where rs: "rs \<noteq> []" "\<forall>r\<in>set rs. j r = jb"
      "requesters (handles s' ?h) = rs @ requesters (handles (record_request s jb i k) ?h)"
      using park(4) park(6) by auto
    show ?thesis
    proof (cases "?h = JOB_GET_ORDERED_BUFFER_HANDLE s jb i")
      case True
      with rs(3) have "requesters (handles s' ?h) = (rs @ [?r]) @ requesters (handles s ?h)"
        by (simp add: record_request_requesters)
      moreover have "\<forall>r\<in>set (rs @ [?r]). j r = jb"
        using rs(2) by (simp add: requester_new_def)
      ultimately show ?thesis by blast
    next
      case False
      with rs show ?thesis
        by (auto simp: record_request_requesters)
    qed
  qed
qed

lemma handle_change_keeps_list:
  "handle_change d d' \<Longrightarrow> refcnt d' \<noteq> refcnt d \<Longrightarrow>
   arbitered_req_list d' = arbitered_req_list d"
  by (induction rule: handle_change.induct) auto

lemma try_acquire_lists:
  assumes "try_acquire s jb a i n = (s', k, ok)"
  shows "arbitered_req_list (handles s' h) = arbitered_req_list (handles s h)"
  using assms
  by (induction rule: try_acquire_induct_rel) (auto simp: step_handles buffer_handle_def)

lemma cancel_taken_lists:
  assumes "cancel_taken s jb a i n = Inr s'"
  shows "arbitered_req_list (handles s' h) = arbitered_req_list (handles s h)"
  using assms
  by (induction rule: cancel_taken_induct_rel) (auto simp: step_handles buffer_handle_def)

lemma find_arbiter_buffers_cong:
  assumes "jobs s' = jobs s" and "\<forall>h. arbiter (handles s' h) = arbiter (handles s h)"
  shows "find_arbiter_buffers s' jb a i n = find_arbiter_buffers s jb a i n"
proof (induction "n - i" arbitrary: i rule: less_induct)
  case less
  have "i < n \<Longrightarrow> find_arbiter_buffers s' jb a (i + 1) n = find_arbiter_buffers s jb a (i + 1) n"
    by (rule less) simp
  then show ?case
    using assms
    by (subst find_arbiter_buffers.simps[of s'], subst find_arbiter_buffers.simps[of s])
       (simp add: buffer_handle_def same_jobs[OF assms(1)])
qed

text \<open>
  C3, as the code has it. When the pass of a submission fails, the requesters of the job
  are put in front of the requesters already recorded, on every handle of the group
  (the buffers from \<open>buf\<close> on, as long as they are of the arbiter); and a notification
  tries the requester at the head of the list first: when its pass succeeds, that
  requester is the one promoted, whatever follows it in the list.
\<close>

theorem parked_requester_at_head:
  "(arbiter (buffer_handle s jb buf) = Some a \<and>
    snd (snd (try_acquire (log_events [Mutex_lock a] s) jb a buf n)) = False \<and>
    starpu_submit_job_enforce_arbitered_deps s jb buf n = Inr (s', res) \<and>
    buf \<le> i \<and> i < n \<and>
    (\<forall>m. buf \<le> m \<and> m \<le> i \<longrightarrow> arbiter (buffer_handle s jb m) = Some a) \<longrightarrow>
      res = 1 \<and>
      (\<exists>rs. rs \<noteq> [] \<and> (\<forall>r\<in>set rs. j r = jb) \<and>
         arbitered_req_list (handles s' (JOB_GET_ORDERED_BUFFER_HANDLE s jb i)) =
           Some (rs @ requesters (handles s (JOB_GET_ORDERED_BUFFER_HANDLE s jb i))))) \<and>
   (arbiter (handles s h) = Some a \<and>
    arbitered_req_list (handles s h) = Some (r # rest) \<and>
    snd (snd (notify_try_acquire (log_events [Mutex_lock a] s) (j r) a
       (find_arbiter_buffers s (j r) a 0 (nbuffers (jobs s (j r))))
       (nbuffers (jobs s (j r))))) = True \<longrightarrow>
      starpu_notify_arbitered_dependencies s h =
        promote
          (fst (notify_try_acquire (log_events [Mutex_lock a] s) (j r) a
             (find_arbiter_buffers s (j r) a 0 (nbuffers (jobs s (j r))))
             (nbuffers (jobs s (j r)))))
          (j r) a
          (find_arbiter_buffers s (j r) a 0 (nbuffers (jobs s (j r))))
          (nbuffers (jobs s (j r))))"
proof (rule conjI; rule impI)
  assume asm: "arbiter (buffer_handle s jb buf) = Some a \<and>
    snd (snd (try_acquire (log_events [Mutex_lock a] s) jb a buf n)) = False \<and>
    starpu_submit_job_enforce_arbitered_deps s jb buf n = Inr (s', res) \<and>
    buf \<le> i \<and> i < n \<and>
    (\<forall>m. buf \<le> m \<and> m \<le> i \<longrightarrow> arbiter (buffer_handle s jb m) = Some a)"
  let ?h = "JOB_GET_ORDERED_BUFFER_HANDLE s jb i"
  obtain sa k where t: "try_acquire (log_events [Mutex_lock a] s) jb a buf n = (sa, k, False)"
    using asm by (cases "try_acquire (log_events [Mutex_lock a] s) jb a buf n") auto
  from asm t obtain sb where c: "cancel_taken sa jb a buf k = Inr sb"
    and s': "s' = log_events [Mutex_unlock a] (record_requests sb jb a buf n k)"
    and res: "res = 1"
    by (subst (asm) starpu_submit_job_enforce_arbitered_deps.simps) (auto split: sum.splits)
  have j1: "jobs sa = jobs s"
    using try_acquire_frame[OF t] by simp
  have j2: "jobs sb = jobs s"
    using cancel_taken_frame[OF c] j1 by simp
  have hc: "handles_change s sb"
    using try_acquire_change[OF t] cancel_taken_change[OF c]
    by (auto intro: handles_change_trans)
  have lists: "arbitered_req_list (handles sb h') = arbitered_req_list (handles s h')" for h'
    using try_acquire_lists[OF t] cancel_taken_lists[OF c] by simp
  have "\<forall>m. buf \<le> m \<and> m \<le> i \<longrightarrow> arbiter (buffer_handle sb jb m) = Some a"
    using asm handles_change_arbiter[OF hc]
    by (simp add: buffer_handle_def same_jobs(1)[OF j2])
  with record_requests_group[OF refl, of buf i n sb jb a k] asm
  obtain rs where rs: "rs \<noteq> []" "\<forall>r\<in>set rs. j r = jb"
    "requesters (handles (record_requests sb jb a buf n k) ?h) = rs @ requesters (handles sb ?h)"
    by (auto simp: same_jobs(1)[OF j2])
  have "requesters (handles sb ?h) = requesters (handles s ?h)"
    by (simp add: requesters_def lists)
  with rs have "requesters (handles s' ?h) = rs @ requesters (handles s ?h)"
    by (simp add: s')
  with rs(1) have "arbitered_req_list (handles s' ?h) = Some (rs @ requesters (handles s ?h))"
    using requesters_nonempty[of "handles s' ?h"] by simp
  with rs res show "res = 1 \<and>
      (\<exists>rs. rs \<noteq> [] \<and> (\<forall>r\<in>set rs. j r = jb) \<and>
         arbitered_req_list (handles s' ?h) = Some (rs @ requesters (handles s ?h)))"
    by blast
next
  assume asm: "arbiter (handles s h) = Some a \<and>
    arbitered_req_list (handles s h) = Some (r # rest) \<and>
    snd (snd (notify_try_acquire (log_events [Mutex_lock a] s) (j r) a
       (find_arbiter_buffers s (j r) a 0 (nbuffers (jobs s (j r))))
       (nbuffers (jobs s (j r))))) = True"
  have f: "find_arbiter_buffers (log_events [Mutex_lock a] s) jb' a 0 m =
      find_arbiter_buffers s jb' a 0 m" for jb' m
    by (rule find_arbiter_buffers_cong) simp_all
  show "starpu_notify_arbitered_dependencies s h =
        promote
          (fst (notify_try_acquire (log_events [Mutex_lock a] s) (j r) a
             (find_arbiter_buffers s (j r) a 0 (nbuffers (jobs s (j r))))
             (nbuffers (jobs s (j r)))))
          (j r) a
          (find_arbiter_buffers s (j r) a 0 (nbuffers (jobs s (j r))))
          (nbuffers (jobs s (j r)))"
  proof (cases "notify_try_acquire (log_events [Mutex_lock a] s) (j r) a
       (find_arbiter_buffers s (j r) a 0 (nbuffers (jobs s (j r))))
       (nbuffers (jobs s (j r)))")
    case (fields sa k ok)
    with asm show ?thesis
      by (simp add: starpu_notify_arbitered_dependencies_def f)
  qed
qed

theorem parked_requester_at_head_witness:
  "arbiter (buffer_handle waiting_state 10 0) = Some 7 \<and>
   snd (snd (try_acquire (log_events [Mutex_lock 7] waiting_state) 10 7 0 2)) = False \<and>
   map_sum id snd (starpu_submit_job_enforce_arbitered_deps waiting_state 10 0 2) = Inr 1 \<and>
   arbitered_req_list
     (handles (fst (projr (starpu_submit_job_enforce_arbitered_deps waiting_state 10 0 2))) 2)
     = Some ([requester_new 2 10 1] @ requesters (handles waiting_state 2)) \<and>
   arbitered_req_list (handles waiting_state 1) = Some [requester_new 2 12 0] \<and>
   pushed (fst (projr (starpu_notify_arbitered_dependencies waiting_state 1))) = [12]"
  using parked_requester_at_head[where s = waiting_state and jb = 10 and buf = 0 and a = 7
      and n = 2 and i = 1 and res = 1
      and s' = "fst (projr (starpu_submit_job_enforce_arbitered_deps waiting_state 10 0 2))"
      and h = 1 and r = "requester_new 2 12 0" and rest = "[]"]
  by (simp add: run_simps requesters_def)

text \<open>
  C3, as it is stated, fails. Job 11 is recorded on handle 2; job 10 is then recorded
  on the same handle and stands before job 11 in the list, not after it. Once handle 2
  is free again, the notification on it pushes job 10 and leaves job 11 recorded.
\<close>

theorem parked_requester_at_tail_counterexample:
  "map j (requesters (handles waiting_state 2)) = [11] \<and>
   map_sum id snd (starpu_submit_job_enforce_arbitered_deps waiting_state 10 0 2) = Inr 1 \<and>
   map j (requesters
     (handles (fst (projr (starpu_submit_job_enforce_arbitered_deps waiting_state 10 0 2))) 2))
     = [10, 11] \<and>
   requesters (handles released_state 2) =
     requesters
       (handles (fst (projr (starpu_submit_job_enforce_arbitered_deps waiting_state 10 0 2))) 2) \<and>
   map_sum id snd (starpu_notify_arbitered_dependencies released_state 2) = Inr 0 \<and>
   pushed (fst (projr (starpu_notify_arbitered_dependencies released_state 2))) = [10] \<and>
   map j (requesters
     (handles (fst (projr (starpu_notify_arbitered_dependencies released_state 2))) 2)) = [11]"
  by (simp add: run_simps requesters_def)

text \<open>
  C2 on a job whose ordered buffers hold handle 2 twice (job 15), submitted while
  handle 2 is taken: the loop that records the requesters does not skip the second
  buffer as the other loops do, so the job is recorded twice on the handle and
  \<open>busy_count\<close> goes from 2 to 4.
\<close>

theorem repeated_buffer_recorded_twice:
  "refcnt (handles waiting_state 2) = 1 \<and>
   busy_count (handles waiting_state 2) = 2 \<and>
   map j (requesters (handles waiting_state 2)) = [11] \<and>
   map_sum id snd (starpu_submit_job_enforce_arbitered_deps waiting_state 15 0 2) = Inr 1 \<and>
   busy_count
     (handles (fst (projr (starpu_submit_job_enforce_arbitered_deps waiting_state 15 0 2))) 2)
     = 4 \<and>
   map j (requesters
     (handles (fst (projr (starpu_submit_job_enforce_arbitered_deps waiting_state 15 0 2))) 2))
     = [15, 15, 11]"
  by (simp add: run_simps requesters_def)

section \<open>A pass of the notification and its cancellation\<close>

lemma notify_try_acquire_index_mono:
  assumes "notify_try_acquire s jb a i n = (s', k, ok)"
  shows "i \<le> k"
  using assms by (induction rule: notify_try_acquire_induct_rel) auto

lemma notify_try_acquire_busy_untouched:
  assumes "notify_try_acquire s jb a i n = (s', k, ok)" and "refcnt (handles s h) \<noteq> 0"
  shows "handles s' h = handles s h"
  using assms
  by (induction rule: notify_try_acquire_induct_rel)
     (auto simp: step_handles buffer_handle_def split: if_splits)

lemma notify_try_acquire_other_untouched:
  assumes "notify_try_acquire s jb a i n = (s', k, ok)"
    and "\<forall>i'. i \<le> i' \<and> i' < k \<and> \<not> already_requested s jb i' \<longrightarrow>
           JOB_GET_ORDERED_BUFFER_HANDLE s jb i' \<noteq> h"
  shows "handles s' h = handles s h"
  using assms
proof (induction rule: notify_try_acquire_induct_rel)
  case (take s i)
  from take(5) have "i + 1 \<le> k" by (rule notify_try_acquire_index_mono)
  with take show ?case
    by (auto simp: step_handles)
qed auto

lemma notify_try_acquire_taken:
  assumes "notify_try_acquire s jb a i n = (s', k, ok)"
    and "i \<le> i'" and "i' < k" and "\<not> already_requested s jb i'"
  shows "arbiter (buffer_handle s jb i') = Some a \<and> refcnt (buffer_handle s jb i') = 0 \<and>
         handles s' (JOB_GET_ORDERED_BUFFER_HANDLE s jb i') =
           (buffer_handle s jb i')\<lparr>refcnt := 1,
              current_mode := JOB_GET_ORDERED_BUFFER_MODE s jb i'\<rparr>"
  using assms
proof (induction rule: notify_try_acquire_induct_rel)
  case (skip s i)
  then have "i \<noteq> i'" by auto
  with skip show ?case by simp
next
  case (take s i)
  let ?h = "JOB_GET_ORDERED_BUFFER_HANDLE s jb i"
  show ?case
  proof (cases "i' = i")
    case True
    have "refcnt (handles (mark_taken s jb i) ?h) \<noteq> 0"
      using take(4) by (simp add: step_handles)
    with take(5) have "handles s' ?h = handles (mark_taken s jb i) ?h"
      by (rule notify_try_acquire_busy_untouched)
    with True take(3,4) show ?thesis
      by (simp add: step_handles)
  next
    case False
    with take have ih: "arbiter (buffer_handle (mark_taken s jb i) jb i') = Some a"
      "refcnt (buffer_handle (mark_taken s jb i) jb i') = 0"
      "handles s' (JOB_GET_ORDERED_BUFFER_HANDLE s jb i') =
         (buffer_handle (mark_taken s jb i) jb i')\<lparr>refcnt := 1,
            current_mode := JOB_GET_ORDERED_BUFFER_MODE s jb i'\<rparr>"
      by simp_all
    from ih(2) take(4) have "JOB_GET_ORDERED_BUFFER_HANDLE s jb i' \<noteq> ?h"
      by (auto simp: buffer_handle_def step_handles)
    then have "buffer_handle (mark_taken s jb i) jb i' = buffer_handle s jb i'"
      by (simp add: buffer_handle_def step_handles)
    with ih show ?thesis by simp
  qed
qed auto

lemma notify_try_acquire_stops:
  assumes "notify_try_acquire s jb a i n = (s', k, ok)"
  shows "if ok then \<not> k < n \<or> (\<not> already_requested s jb k \<and>
                     arbiter (buffer_handle s' jb k) \<noteq> Some a)
         else k < n \<and> \<not> already_requested s jb k \<and>
              arbiter (buffer_handle s' jb k) = Some a \<and> refcnt (buffer_handle s' jb k) \<noteq> 0"
  using assms
  by (induction rule: notify_try_acquire_induct_rel) (auto simp: buffer_handle_def)

lemma notify_try_acquire_distinct:
  assumes "notify_try_acquire s jb a i n = (s', k, ok)"
    and "i \<le> i'" and "i' < i''" and "i'' < k"
    and "\<not> already_requested s jb i'" and "\<not> already_requested s jb i''"
  shows "JOB_GET_ORDERED_BUFFER_HANDLE s jb i' \<noteq> JOB_GET_ORDERED_BUFFER_HANDLE s jb i''"
  using assms
proof (induction rule: notify_try_acquire_induct_rel)
  case (skip s i)
  then have "i \<noteq> i'" by auto
  with skip show ?case by simp
next
  case (take s i)
  show ?case
  proof (cases "i' = i")
    case True
    from take(5) have "refcnt (buffer_handle (mark_taken s jb i) jb i'') = 0"
      using notify_try_acquire_taken[of "mark_taken s jb i" jb a "i + 1" n s' k ok i'']
        take True by simp
    with True take(4) show ?thesis
      by (auto simp: buffer_handle_def step_handles split: if_splits)
  next
    case False
    with take show ?thesis by simp
  qed
qed auto

text \<open>The loop that cancels: which handles it changes, and how.\<close>

lemma cancel_taken_shape:
  assumes "cancel_taken s jb a i n = Inr s'"
  shows "handles s' h = handles s h \<or>
         (refcnt (handles s h) = 1 \<and> handles s' h = (handles s h)\<lparr>refcnt := 0\<rparr>)"
  using assms
proof (induction rule: cancel_taken_induct_rel)
  case (drop s i)
  then show ?case
    by (cases "h = JOB_GET_ORDERED_BUFFER_HANDLE s jb i")
       (auto simp: step_handles buffer_handle_def)
qed auto

lemma cancel_taken_other_untouched:
  assumes "cancel_taken s jb a i n = Inr s'"
    and "\<forall>i'. i \<le> i' \<and> i' < n \<and> \<not> already_requested s jb i' \<longrightarrow>
           JOB_GET_ORDERED_BUFFER_HANDLE s jb i' \<noteq> h"
  shows "handles s' h = handles s h"
  using assms
  by (induction rule: cancel_taken_induct_rel) (auto simp: step_handles)

lemma cancel_taken_covers:
  assumes "cancel_taken s jb a i n = Inr s'"
    and "i \<le> i'" and "i' < n" and "\<not> already_requested s jb i'"
    and "\<forall>m. i \<le> m \<and> m < n \<and> \<not> already_requested s jb m \<longrightarrow>
           arbiter (buffer_handle s jb m) = Some a"
  shows "refcnt (handles s' (JOB_GET_ORDERED_BUFFER_HANDLE s jb i')) = 0"
  using assms
proof (induction rule: cancel_taken_induct_rel)
  case (stop s i)
  then show ?case by simp
next
  case (skip s i)
  then have "i \<noteq> i'" by auto
  with skip show ?case by simp
next
  case (other s i)
  then show ?case by auto
next
  case (drop s i)
  let ?h = "JOB_GET_ORDERED_BUFFER_HANDLE s jb i"
  show ?case
  proof (cases "i' = i")
    case True
    have "refcnt (handles (drop_reference s jb i) ?h) = 0"
      using drop(4) by (simp add: step_handles)
    with cancel_taken_shape[OF drop(5), of ?h] True show ?thesis
      by auto
  next
    case False
    moreover have "\<forall>m. i + 1 \<le> m \<and> m < n \<and> \<not> already_requested s jb m \<longrightarrow>
        arbiter (buffer_handle (drop_reference s jb i) jb m) = Some a"
      using drop(10) drop(3) by (auto simp: buffer_handle_def step_handles)
    ultimately show ?thesis
      using drop by simp
  qed
qed

text \<open>A failed pass of the notification, once cancelled, has taken nothing.\<close>

lemma notify_pass_cancelled:
  assumes t: "notify_try_acquire s jb a nb n = (sa, k, ok)"
    and c: "cancel_taken sa jb a nb k = Inr sb"
  shows "same_references (handles s h) (handles sb h)"
proof -
  have js: "jobs sa = jobs s"
    using notify_try_acquire_frame[OF t] by simp
  note bs = same_jobs[OF js]
  have arb: "\<forall>m. nb \<le> m \<and> m < k \<and> \<not> already_requested sa jb m \<longrightarrow>
      arbiter (buffer_handle sa jb m) = Some a"
    using notify_try_acquire_taken[OF t] by (auto simp: bs buffer_handle_def)
  show ?thesis
  proof (cases "\<exists>i'. nb \<le> i' \<and> i' < k \<and> \<not> already_requested s jb i' \<and>
      JOB_GET_ORDERED_BUFFER_HANDLE s jb i' = h")
    case True
    then obtain i' where i': "nb \<le> i'" "i' < k" "\<not> already_requested s jb i'"
      "JOB_GET_ORDERED_BUFFER_HANDLE s jb i' = h"
      by blast
    from notify_try_acquire_taken[OF t i'(1,2,3)] i'(4)
    have was: "refcnt (handles s h) = 0"
      and now: "handles sa h = (handles s h)\<lparr>refcnt := 1,
          current_mode := JOB_GET_ORDERED_BUFFER_MODE s jb i'\<rparr>"
      by (simp_all add: buffer_handle_def)
    have "refcnt (handles sb h) = 0"
      using cancel_taken_covers[OF c i'(1,2) _ arb] i'(3,4) by (simp add: bs)
    with cancel_taken_shape[OF c, of h] now
    have "handles sb h = (handles sa h)\<lparr>refcnt := 0\<rparr>"
      by auto
    with was now show ?thesis
      by (simp add: same_references_def)
  next
    case False
    then have "handles sa h = handles s h"
      using notify_try_acquire_other_untouched[OF t, of h] by blast
    moreover have "handles sb h = handles sa h"
      using cancel_taken_other_untouched[OF c, of h] False by (auto simp: bs)
    ultimately show ?thesis
      by (simp add: same_references_def)
  qed
qed

section \<open>States that hold the same references\<close>

lemma same_references_refl [simp]: "same_references d d"
  by (simp add: same_references_def)

lemma same_references_trans:
  "same_references d d' \<Longrightarrow> same_references d' d'' \<Longrightarrow> same_references d d''"
  by (auto simp: same_references_def)

lemma same_state_refl [simp]: "same_state s s"
  by (simp add: same_state_def)

lemma same_state_trans: "same_state s t \<Longrightarrow> same_state t u \<Longrightarrow> same_state s u"
  by (auto simp: same_state_def intro: same_references_trans)

lemma same_state_log [simp]:
  "same_state s (log_events es t) \<longleftrightarrow> same_state s t"
  "same_state (log_events es s) t \<longleftrightarrow> same_state s t"
  by (simp_all add: same_state_def)

lemma same_state_fields:
  assumes "same_state s t"
  shows "jobs t = jobs s" and "pushed t = pushed s"
    and "refcnt (handles t h) = refcnt (handles s h)"
    and "busy_count (handles t h) = busy_count (handles s h)"
    and "arbiter (handles t h) = arbiter (handles s h)"
    and "arbitered_req_list (handles t h) = arbitered_req_list (handles s h)"
    and "requesters (handles t h) = requesters (handles s h)"
  using assms by (simp_all add: same_state_def same_references_def requesters_def)

lemma same_state_buffers:
  assumes "same_state s t"
  shows "JOB_GET_ORDERED_BUFFER_HANDLE t = JOB_GET_ORDERED_BUFFER_HANDLE s"
    and "JOB_GET_ORDERED_BUFFER_MODE t = JOB_GET_ORDERED_BUFFER_MODE s"
    and "already_requested t = already_requested s"
    and "refcnt (buffer_handle t jb i) = refcnt (buffer_handle s jb i)"
    and "arbiter (buffer_handle t jb i) = arbiter (buffer_handle s jb i)"
    and "first_arbiter_buffer t jb a = first_arbiter_buffer s jb a"
proof -
  note j = same_state_fields(1)[OF assms]
  show "JOB_GET_ORDERED_BUFFER_HANDLE t = JOB_GET_ORDERED_BUFFER_HANDLE s"
    and "JOB_GET_ORDERED_BUFFER_MODE t = JOB_GET_ORDERED_BUFFER_MODE s"
    and "already_requested t = already_requested s"
    by (rule same_jobs[OF j])+
  show "refcnt (buffer_handle t jb i) = refcnt (buffer_handle s jb i)"
    and "arbiter (buffer_handle t jb i) = arbiter (buffer_handle s jb i)"
    by (simp_all add: buffer_handle_def same_jobs[OF j] same_state_fields[OF assms])
  show "first_arbiter_buffer t jb a = first_arbiter_buffer s jb a"
    unfolding first_arbiter_buffer_def j
    by (rule find_arbiter_buffers_cong) (simp_all add: j same_state_fields[OF assms])
qed

lemma mark_taken_same_state:
  assumes "same_state s t"
  shows "same_state (mark_taken s jb i) (mark_taken t jb i)"
  using assms
  by (auto simp: same_state_def same_references_def step_handles buffer_handle_def
      same_jobs[of t s])

lemma notify_try_acquire_same_state:
  assumes "notify_try_acquire s jb a i n = (s', k, ok)" and "same_state s t"
  shows "\<exists>t'. notify_try_acquire t jb a i n = (t', k, ok) \<and> same_state s' t'"
  using assms
proof (induction arbitrary: t rule: notify_try_acquire_induct_rel)
  case (stop s i)
  then show ?case
    by (subst notify_try_acquire.simps) simp
next
  case (skip s i)
  from skip(4)[OF skip(5)] skip(1,2) show ?case
    by (subst notify_try_acquire.simps) (simp add: same_state_buffers[OF skip(5)])
next
  case (other s i)
  then show ?case
    by (subst notify_try_acquire.simps) (simp add: same_state_buffers[OF other(7)])
next
  case (take s i)
  from take(6)[OF mark_taken_same_state[OF take(7)]] take(1-4) show ?case
    by (subst notify_try_acquire.simps) (simp add: same_state_buffers[OF take(7)])
next
  case (busy s i)
  moreover have "same_state (lock_unlock s jb i) (lock_unlock t jb i)"
    using busy(8) by (simp add: same_state_def)
  ultimately show ?case
    by (subst notify_try_acquire.simps) (simp add: same_state_buffers[OF busy(8)])
qed

lemma all_available_same_state:
  assumes "same_state s t"
  shows "all_available t jb a = all_available s jb a"
proof -
  obtain s' k ok where r: "notify_try_acquire s jb a (first_arbiter_buffer s jb a)
      (nbuffers (jobs s jb)) = (s', k, ok)"
    by (cases "notify_try_acquire s jb a (first_arbiter_buffer s jb a) (nbuffers (jobs s jb))")
  from notify_try_acquire_same_state[OF r assms] r show ?thesis
    by (auto simp: all_available_def same_state_buffers[OF assms] same_state_fields[OF assms])
qed

lemma notify_pass_cancelled_state:
  assumes "notify_try_acquire s jb a nb n = (sa, k, ok)"
    and "cancel_taken sa jb a nb k = Inr sb"
  shows "same_state s sb"
  using notify_pass_cancelled[OF assms] notify_try_acquire_frame[OF assms(1)]
    cancel_taken_frame[OF assms(2)]
  by (simp add: same_state_def)

section \<open>The scan of the notification\<close>

lemma promote_result: "promote s jb a nb n = Inr (s', res) \<Longrightarrow> res = 0"
  by (auto simp: promote_def split: sum.splits prod.splits if_splits)

lemma notify_scan_first_available:
  assumes "notify_scan s a rs = Inr (s', res)"
  shows "(res = 1 \<and> (\<forall>r\<in>set rs. \<not> all_available s (j r) a) \<and> same_state s s') \<or>
         (res = 0 \<and> (\<exists>before r after sm sa k.
            rs = before @ r # after \<and> (\<forall>r'\<in>set before. \<not> all_available s (j r') a) \<and>
            all_available s (j r) a \<and> same_state s sm \<and>
            notify_try_acquire sm (j r) a (first_arbiter_buffer s (j r) a)
              (nbuffers (jobs s (j r))) = (sa, k, True) \<and>
            promote sa (j r) a (first_arbiter_buffer s (j r) a) (nbuffers (jobs s (j r)))
              = Inr (s', 0)))"
  using assms
proof (induction rule: notify_scan_induct_rel)
  case (empty s)
  then show ?case by simp
next
  case (promote s r rest sa k)
  have "res = 0"
    using promote(2) by (rule promote_result)
  moreover have "all_available s (j r) a"
    using promote(1) by (simp add: all_available_def first_arbiter_buffer_def)
  ultimately have "res = 0 \<and> r # rest = [] @ r # rest \<and>
      (\<forall>r'\<in>set []. \<not> all_available s (j r') a) \<and> all_available s (j r) a \<and> same_state s s \<and>
      notify_try_acquire s (j r) a (first_arbiter_buffer s (j r) a)
        (nbuffers (jobs s (j r))) = (sa, k, True) \<and>
      promote sa (j r) a (first_arbiter_buffer s (j r) a) (nbuffers (jobs s (j r)))
        = Inr (s', 0)"
    using promote by (simp add: first_arbiter_buffer_def)
  then show ?case by blast
next
  case (fail s r rest sa k sb)
  have e: "same_state s sb"
    using fail(1,2) by (rule notify_pass_cancelled_state)
  have no: "\<not> all_available s (j r) a"
    using fail(1) by (simp add: all_available_def first_arbiter_buffer_def)
  note av = all_available_same_state[OF e]
  from fail(4) show ?case
  proof (elim disjE conjE exE)
    assume "res = 1" "\<forall>r\<in>set rest. \<not> all_available sb (j r) a" "same_state sb s'"
    with e no show ?thesis
      by (auto simp: av intro: same_state_trans)
  next
    fix before r' after sm sa' k'
    assume h: "res = 0" "rest = before @ r' # after"
      "\<forall>x\<in>set before. \<not> all_available sb (j x) a" "all_available sb (j r') a"
      "same_state sb sm"
      "notify_try_acquire sm (j r') a (first_arbiter_buffer sb (j r') a)
         (nbuffers (jobs sb (j r'))) = (sa', k', True)"
      "promote sa' (j r') a (first_arbiter_buffer sb (j r') a) (nbuffers (jobs sb (j r')))
         = Inr (s', 0)"
    have "res = 0 \<and> r # rest = (r # before) @ r' # after \<and>
        (\<forall>x\<in>set (r # before). \<not> all_available s (j x) a) \<and> all_available s (j r') a \<and>
        same_state s sm \<and>
        notify_try_acquire sm (j r') a (first_arbiter_buffer s (j r') a)
          (nbuffers (jobs s (j r'))) = (sa', k', True) \<and>
        promote sa' (j r') a (first_arbiter_buffer s (j r') a) (nbuffers (jobs s (j r')))
          = Inr (s', 0)"
      using h e no
      by (auto simp: av same_state_buffers[OF e] same_state_fields[OF e]
          intro: same_state_trans)
    then show ?thesis by blast
  qed
qed

section \<open>The removal of the requesters of a promoted job\<close>

lemma remove_requester_step:
  assumes "remove_requester s jb i = Inr s'"
  shows "refcnt (buffer_handle s jb i) = 1" and "1 \<le> busy_count (buffer_handle s jb i)"
    and "snd (remove_job_from_requester_list (requesters (buffer_handle s jb i)) jb) = 0"
    and "\<exists>l. handles s' =
      (handles s)(JOB_GET_ORDERED_BUFFER_HANDLE s jb i :=
         (buffer_handle s jb i)\<lparr>arbitered_req_list := l\<rparr>)"
    and "requesters (handles s' (JOB_GET_ORDERED_BUFFER_HANDLE s jb i)) =
      fst (remove_job_from_requester_list (requesters (buffer_handle s jb i)) jb)"
  using assms
  by (auto simp: remove_requester_def requesters_def buffer_handle_def
      split: if_splits option.splits prod.splits)

lemma remove_requester_counts:
  assumes "remove_requester s jb i = Inr s'"
  shows "refcnt (handles s' h) = refcnt (handles s h)"
    and "busy_count (handles s' h) = busy_count (handles s h)"
    and "arbiter (handles s' h) = arbiter (handles s h)"
    and "current_mode (handles s' h) = current_mode (handles s h)"
    and "h \<noteq> JOB_GET_ORDERED_BUFFER_HANDLE s jb i \<Longrightarrow> handles s' h = handles s h"
proof -
  from remove_requester_step(4)[OF assms] obtain l where
    h: "handles s' = (handles s)(JOB_GET_ORDERED_BUFFER_HANDLE s jb i :=
         (buffer_handle s jb i)\<lparr>arbitered_req_list := l\<rparr>)"
    by blast
  show "refcnt (handles s' h) = refcnt (handles s h)"
    and "busy_count (handles s' h) = busy_count (handles s h)"
    and "arbiter (handles s' h) = arbiter (handles s h)"
    and "current_mode (handles s' h) = current_mode (handles s h)"
    and "h \<noteq> JOB_GET_ORDERED_BUFFER_HANDLE s jb i \<Longrightarrow> handles s' h = handles s h"
    by (simp_all add: h buffer_handle_def)
qed

lemma remove_requester_buffers:
  assumes "remove_requester s jb i = Inr s'"
  shows "JOB_GET_ORDERED_BUFFER_HANDLE s' = JOB_GET_ORDERED_BUFFER_HANDLE s"
    and "JOB_GET_ORDERED_BUFFER_MODE s' = JOB_GET_ORDERED_BUFFER_MODE s"
    and "already_requested s' = already_requested s"
  by (rule same_jobs[OF remove_requester_fields(1)[OF assms]])+

lemma remove_requesters_index_mono:
  assumes "remove_requesters s jb a i n = Inr (s', k)"
  shows "i \<le> k"
  using assms by (induction rule: remove_requesters_induct_rel) auto

lemma remove_requesters_counts:
  assumes "remove_requesters s jb a i n = Inr (s', k)"
  shows "refcnt (handles s' h) = refcnt (handles s h) \<and>
         busy_count (handles s' h) = busy_count (handles s h) \<and>
         arbiter (handles s' h) = arbiter (handles s h) \<and>
         current_mode (handles s' h) = current_mode (handles s h)"
  using assms
  by (induction rule: remove_requesters_induct_rel) (auto simp: remove_requester_counts)

lemma remove_requesters_other_untouched:
  assumes "remove_requesters s jb a i n = Inr (s', k)"
    and "\<forall>i'. i \<le> i' \<and> i' < k \<and> \<not> already_requested s jb i' \<longrightarrow>
           JOB_GET_ORDERED_BUFFER_HANDLE s jb i' \<noteq> h"
  shows "handles s' h = handles s h"
  using assms
proof (induction rule: remove_requesters_induct_rel)
  case (remove s i sa)
  from remove(5) have "i + 1 \<le> k" by (rule remove_requesters_index_mono)
  with remove show ?case
    by (auto simp: remove_requester_counts(5)[OF remove(4)] remove_requester_buffers[OF remove(4)])
qed auto

lemma remove_requesters_exact:
  assumes "remove_requesters s jb a i n = Inr (s', k)"
    and "i \<le> i'" and "i' < k" and "\<not> already_requested s jb i'"
    and "\<forall>m m'. i \<le> m \<and> m < m' \<and> m' < k \<and> \<not> already_requested s jb m \<and>
           \<not> already_requested s jb m' \<longrightarrow>
           JOB_GET_ORDERED_BUFFER_HANDLE s jb m \<noteq> JOB_GET_ORDERED_BUFFER_HANDLE s jb m'"
  shows "snd (remove_job_from_requester_list (requesters (buffer_handle s jb i')) jb) = 0 \<and>
         requesters (handles s' (JOB_GET_ORDERED_BUFFER_HANDLE s jb i')) =
           fst (remove_job_from_requester_list (requesters (buffer_handle s jb i')) jb) \<and>
         refcnt (buffer_handle s jb i') = 1 \<and> 1 \<le> busy_count (buffer_handle s jb i')"
  using assms
proof (induction rule: remove_requesters_induct_rel)
  case (skip s i)
  then have "i \<noteq> i'" by auto
  with skip show ?case by simp
next
  case (remove s i sa)
  note b = remove_requester_buffers[OF remove(4)]
  let ?h = "JOB_GET_ORDERED_BUFFER_HANDLE s jb i"
  show ?case
  proof (cases "i' = i")
    case True
    have "JOB_GET_ORDERED_BUFFER_HANDLE s jb m \<noteq> ?h"
      if "i + 1 \<le> m" "m < k" "\<not> already_requested s jb m" for m
      using remove(10)[rule_format, of i m] remove(2) that by auto
    then have "\<forall>m. i + 1 \<le> m \<and> m < k \<and> \<not> already_requested sa jb m \<longrightarrow>
        JOB_GET_ORDERED_BUFFER_HANDLE sa jb m \<noteq> ?h"
      by (simp add: b)
    with remove_requesters_other_untouched[OF remove(5), of ?h]
    have "handles s' ?h = handles sa ?h" by blast
    with True remove_requester_step[OF remove(4)] show ?thesis
      by simp
  next
    case False
    with remove(7) have lt: "i < i'" by simp
    with remove(2,8,9) remove(10)[rule_format, of i i']
    have "JOB_GET_ORDERED_BUFFER_HANDLE s jb i' \<noteq> ?h"
      by auto
    then have "buffer_handle sa jb i' = buffer_handle s jb i'"
      by (simp add: buffer_handle_def b remove_requester_counts(5)[OF remove(4)])
    moreover have "\<forall>m m'. i + 1 \<le> m \<and> m < m' \<and> m' < k \<and> \<not> already_requested sa jb m \<and>
           \<not> already_requested sa jb m' \<longrightarrow>
           JOB_GET_ORDERED_BUFFER_HANDLE sa jb m \<noteq> JOB_GET_ORDERED_BUFFER_HANDLE sa jb m'"
      using remove(10) by (simp add: b)
    ultimately show ?thesis
      using remove(6)[unfolded b] lt remove(8,9) by (simp add: b)
  qed
qed auto

lemma remove_requesters_index:
  assumes "remove_requesters s jb a i n = Inr (s', k')"
    and "i \<le> k" and "k \<le> n \<or> k = i"
    and "\<forall>m. i \<le> m \<and> m < k \<and> \<not> already_requested s jb m \<longrightarrow>
           arbiter (buffer_handle s jb m) = Some a"
    and "k < n \<longrightarrow> \<not> already_requested s jb k \<and> arbiter (buffer_handle s jb k) \<noteq> Some a"
  shows "k' = k"
  using assms
proof (induction rule: remove_requesters_induct_rel)
  case (stop s i)
  then show ?case by auto
next
  case (skip s i)
  then have "i \<noteq> k" by auto
  with skip(5,6) have "i + 1 \<le> k" "k \<le> n \<or> k = i + 1" by auto
  moreover have "\<forall>m. i + 1 \<le> m \<and> m < k \<and> \<not> already_requested s jb m \<longrightarrow>
           arbiter (buffer_handle s jb m) = Some a"
    using skip(7) by simp
  ultimately show ?case
    using skip(8) by (rule skip(4))
next
  case (other s i)
  have "i = k"
  proof (rule ccontr)
    assume "i \<noteq> k"
    with other(6) have "i < k" by simp
    with other(8)[rule_format, of i] other(2,3) show False by simp
  qed
  with other(5) show ?case by simp
next
  case (remove s i sa)
  note b = remove_requester_buffers[OF remove(4)]
  have arb: "arbiter (buffer_handle sa jb m) = arbiter (buffer_handle s jb m)" for m
    by (simp add: buffer_handle_def b remove_requester_counts[OF remove(4)])
  from remove(1,2,3,10) have "i \<noteq> k" by auto
  with remove(7,8) have "i + 1 \<le> k" "k \<le> n \<or> k = i + 1" by auto
  moreover have "\<forall>m. i + 1 \<le> m \<and> m < k \<and> \<not> already_requested sa jb m \<longrightarrow>
           arbiter (buffer_handle sa jb m) = Some a"
    using remove(9) by (simp add: b arb)
  moreover have "k < n \<longrightarrow> \<not> already_requested sa jb k \<and>
      arbiter (buffer_handle sa jb k) \<noteq> Some a"
    using remove(10) by (simp add: b arb)
  ultimately show ?case
    by (rule remove(6))
qed

lemma notify_try_acquire_index_bound:
  assumes "notify_try_acquire s jb a i n = (s', k, ok)"
  shows "k \<le> n \<or> k = i"
  using assms by (induction rule: notify_try_acquire_induct_rel) auto

lemma notify_try_acquire_counts:
  assumes "notify_try_acquire s jb a i n = (s', k, ok)"
  shows "busy_count (handles s' h) = busy_count (handles s h) \<and>
         arbiter (handles s' h) = arbiter (handles s h) \<and>
         arbitered_req_list (handles s' h) = arbitered_req_list (handles s h)"
  using assms
  by (induction rule: notify_try_acquire_induct_rel) (auto simp: step_handles buffer_handle_def)

section \<open>What a submission pushes\<close>

lemma submit_pushed:
  assumes "starpu_submit_job_enforce_arbitered_deps s jb buf n = Inr (s', res)"
  shows "(res = 1 \<and> pushed s' = pushed s) \<or> (res = 0 \<and> pushed s' = pushed s @ [jb])"
  using assms
proof (induction rule: submit_induct_rel)
  case (park s buf a sa k sb)
  then show ?case
    using try_acquire_frame[OF park(2)] cancel_taken_frame[OF park(3)]
      record_requests_frame[of sb jb a buf n k, OF refl]
    by simp
next
  case (next_group s buf a sa k)
  then show ?case
    using try_acquire_frame[OF next_group(2)] by simp
next
  case (push s buf a sa k)
  then show ?case
    using try_acquire_frame[OF push(2)] by simp
qed

lemma promote_after_pass:
  assumes same: "same_state s sm"
    and t: "notify_try_acquire sm jb a nb n = (sa, k, True)"
    and p: "promote sa jb a nb n = Inr (s', res)"
  shows "\<exists>sb. remove_requesters sa jb a nb n = Inr (sb, k) \<and>
      (\<forall>i. nb \<le> i \<and> i < k \<and> \<not> already_requested s jb i \<longrightarrow>
         snd (remove_job_from_requester_list
                (requesters (handles s (JOB_GET_ORDERED_BUFFER_HANDLE s jb i))) jb) = 0 \<and>
         requesters (handles sb (JOB_GET_ORDERED_BUFFER_HANDLE s jb i)) =
           fst (remove_job_from_requester_list
                  (requesters (handles s (JOB_GET_ORDERED_BUFFER_HANDLE s jb i))) jb)) \<and>
      (\<forall>h. (\<forall>i. nb \<le> i \<and> i < k \<and> \<not> already_requested s jb i \<longrightarrow>
               JOB_GET_ORDERED_BUFFER_HANDLE s jb i \<noteq> h) \<longrightarrow>
           requesters (handles sb h) = requesters (handles s h)) \<and>
      (if k < n
       then (\<exists>res'. starpu_submit_job_enforce_arbitered_deps
                       (log_events [Mutex_unlock a] sb) jb k n = Inr (s', res')) \<and>
            (pushed s' = pushed s \<or> pushed s' = pushed s @ [jb])
       else s' = starpu_push_task jb (log_events [Mutex_unlock a] sb) \<and>
            pushed s' = pushed s @ [jb])"
proof -
  note bm = same_state_buffers(1-3)[OF same]
  have ja: "jobs sa = jobs sm" and pa: "pushed sa = pushed sm"
    using notify_try_acquire_frame[OF t] by simp_all
  note ba = same_jobs[OF ja]
  from p obtain sb k' where r: "remove_requesters sa jb a nb n = Inr (sb, k')"
    by (auto simp: promote_def split: sum.splits)
  have lists: "requesters (handles sa h) = requesters (handles s h)" for h
    using notify_try_acquire_counts[OF t, of h] same_state_fields(7)[OF same, of h]
    by (simp add: requesters_def)
  have arb: "arbiter (buffer_handle sa jb m) = arbiter (buffer_handle sm jb m)" for m
    using notify_try_acquire_counts[OF t] by (simp add: buffer_handle_def ba)
  have "nb \<le> k"
    using t by (rule notify_try_acquire_index_mono)
  moreover have "k \<le> n \<or> k = nb"
    using t by (rule notify_try_acquire_index_bound)
  moreover have "\<forall>m. nb \<le> m \<and> m < k \<and> \<not> already_requested sa jb m \<longrightarrow>
      arbiter (buffer_handle sa jb m) = Some a"
    using notify_try_acquire_taken[OF t] by (simp add: ba arb)
  moreover have "k < n \<longrightarrow> \<not> already_requested sa jb k \<and>
      arbiter (buffer_handle sa jb k) \<noteq> Some a"
    using notify_try_acquire_stops[OF t] by (auto simp: ba)
  ultimately have k': "k' = k"
    by (rule remove_requesters_index[OF r])
  have dist: "\<forall>m m'. nb \<le> m \<and> m < m' \<and> m' < k \<and> \<not> already_requested sa jb m \<and>
      \<not> already_requested sa jb m' \<longrightarrow>
      JOB_GET_ORDERED_BUFFER_HANDLE sa jb m \<noteq> JOB_GET_ORDERED_BUFFER_HANDLE sa jb m'"
    using notify_try_acquire_distinct[OF t] by (simp add: ba)
  have removed: "snd (remove_job_from_requester_list
        (requesters (handles s (JOB_GET_ORDERED_BUFFER_HANDLE s jb i))) jb) = 0 \<and>
      requesters (handles sb (JOB_GET_ORDERED_BUFFER_HANDLE s jb i)) =
        fst (remove_job_from_requester_list
               (requesters (handles s (JOB_GET_ORDERED_BUFFER_HANDLE s jb i))) jb)"
    if "nb \<le> i" "i < k" "\<not> already_requested s jb i" for i
    using remove_requesters_exact[OF r[unfolded k'] that(1,2) _ dist] that(3)
    by (simp add: ba bm buffer_handle_def lists)
  have others: "requesters (handles sb h) = requesters (handles s h)"
    if "\<forall>i. nb \<le> i \<and> i < k \<and> \<not> already_requested s jb i \<longrightarrow>
          JOB_GET_ORDERED_BUFFER_HANDLE s jb i \<noteq> h" for h
  proof -
    have "handles sb h = handles sa h"
      using remove_requesters_other_untouched[OF r[unfolded k'], of h] that
      by (simp add: ba bm)
    then show ?thesis by (simp add: lists)
  qed
  have pb: "pushed sb = pushed s"
    using remove_requesters_frame[OF r] pa same_state_fields(2)[OF same] by simp
  have last: "if k < n
       then (\<exists>res'. starpu_submit_job_enforce_arbitered_deps
                       (log_events [Mutex_unlock a] sb) jb k n = Inr (s', res')) \<and>
            (pushed s' = pushed s \<or> pushed s' = pushed s @ [jb])
       else s' = starpu_push_task jb (log_events [Mutex_unlock a] sb) \<and>
            pushed s' = pushed s @ [jb]"
  proof (cases "k < n")
    case True
    with p r k' obtain res' where sub: "starpu_submit_job_enforce_arbitered_deps
        (log_events [Mutex_unlock a] sb) jb k n = Inr (s', res')"
      by (auto simp: promote_def split: sum.splits)
    from submit_pushed[OF sub] pb have "pushed s' = pushed s \<or> pushed s' = pushed s @ [jb]"
      by auto
    with True sub show ?thesis by auto
  next
    case False
    with p r k' pb show ?thesis
      by (auto simp: promote_def)
  qed
  from r k' removed others last show ?thesis
    by blast
qed

section \<open>The invariant between \<open>refcnt\<close> and \<open>busy_count\<close>\<close>

lemma busy_count_incr:
  fixes b r :: "32 word"
  assumes "unat b + 1 < 2 ^ 32"
  shows "unat (b + 1) = unat b + 1" and "1 \<le> b + 1" and "r \<le> b \<Longrightarrow> r \<le> b + 1"
proof -
  show u: "unat (b + 1) = unat b + 1"
    using assms unat_add_lem[of b 1] by simp
  then show "1 \<le> b + 1"
    by (simp add: word_le_nat_alt)
  from u show "r \<le> b \<Longrightarrow> r \<le> b + 1"
    by (simp add: word_le_nat_alt)
qed

lemma refcnt_le_busy_log [simp]:
  "refcnt_le_busy (log_events es s) = refcnt_le_busy s"
  "refcnt_le_busy (starpu_push_task jb s) = refcnt_le_busy s"
  "refcnt_le_busy (lock_unlock s jb i) = refcnt_le_busy s"
  "busy_room (log_events es s) m = busy_room s m"
  "busy_room (starpu_push_task jb s) m = busy_room s m"
  "busy_room (lock_unlock s jb i) m = busy_room s m"
  by (simp_all add: refcnt_le_busy_def busy_room_def)

lemma busy_room_less:
  assumes "busy_room s m" and "m' \<le> m"
  shows "busy_room s m'"
  unfolding busy_room_def
proof
  fix h
  from assms(1) have "unat (busy_count (handles s h)) + m < 2 ^ 32"
    by (simp add: busy_room_def)
  with assms(2) show "unat (busy_count (handles s h)) + m' < 2 ^ 32"
    by linarith
qed

lemma busy_room_same:
  assumes "busy_room s m" and "\<And>h. busy_count (handles t h) = busy_count (handles s h)"
  shows "busy_room t m"
  using assms by (simp add: busy_room_def)

lemma counted_handle:
  fixes d d' :: starpu_data_state
  assumes "unat (busy_count d) + 1 + m < 2 ^ 32"
    and "busy_count d' = busy_count d + 1"
    and "refcnt d' \<le> 1 \<or> refcnt d' \<le> busy_count d"
  shows "refcnt d' \<le> busy_count d'" and "unat (busy_count d') + m < 2 ^ 32"
proof -
  from assms(1) have one: "unat (busy_count d) + 1 < 2 ^ 32"
    by linarith
  note incr = busy_count_incr[OF one]
  from assms(3) show "refcnt d' \<le> busy_count d'"
    unfolding assms(2) using incr(2) incr(3)[of "refcnt d'"] by auto
  from assms(1) show "unat (busy_count d') + m < 2 ^ 32"
    unfolding assms(2) incr(1) .
qed

lemma take_reference_invariant:
  assumes "refcnt_le_busy s" and "busy_room s (n - i)" and "i < n"
    and "refcnt (buffer_handle s jb i) = 0"
  shows "refcnt_le_busy (take_reference s jb i) \<and> busy_room (take_reference s jb i) (n - (i + 1))"
proof -
  let ?H = "JOB_GET_ORDERED_BUFFER_HANDLE s jb i"
  let ?t = "take_reference s jb i"
  have room: "unat (busy_count (handles s h)) + 1 + (n - (i + 1)) < 2 ^ 32" for h
    using assms(2)[unfolded busy_room_def, rule_format, of h] assms(3) by linarith
  have new: "busy_count (handles ?t ?H) = busy_count (handles s ?H) + 1"
    "refcnt (handles ?t ?H) \<le> 1"
    using assms(4) by (simp_all add: step_handles buffer_handle_def)
  have old: "handles ?t h = handles s h" if "h \<noteq> ?H" for h
    using that by (simp add: step_handles)
  have "refcnt (handles ?t h) \<le> busy_count (handles ?t h) \<and>
      unat (busy_count (handles ?t h)) + (n - (i + 1)) < 2 ^ 32" for h
  proof (cases "h = ?H")
    case True
    with counted_handle[OF room[of ?H] new(1)] new(2) show ?thesis
      by simp
  next
    case False
    from room[of h] have "unat (busy_count (handles s h)) + (n - (i + 1)) < 2 ^ 32"
      by linarith
    with False assms(1) show ?thesis
      by (simp add: old refcnt_le_busy_def)
  qed
  then show ?thesis
    by (simp add: refcnt_le_busy_def busy_room_def)
qed

lemma try_acquire_invariant:
  assumes "try_acquire s jb a i n = (s', k, ok)"
    and "refcnt_le_busy s" and "busy_room s (n - i)"
  shows "refcnt_le_busy s' \<and> busy_room s' (n - k)"
  using assms
proof (induction rule: try_acquire_induct_rel)
  case (skip s i)
  have "busy_room s (n - (i + 1))"
    using skip(6) by (rule busy_room_less) simp
  with skip(4,5) show ?case by simp
next
  case (take s i)
  from take_reference_invariant[OF take(7,8,1,4)] take(6) show ?case
    by simp
qed auto

lemma cancel_taken_invariant:
  assumes "cancel_taken s jb a i n = Inr s'" and "refcnt_le_busy s"
  shows "refcnt_le_busy s'"
  using assms
proof (induction rule: cancel_taken_induct_rel)
  case (drop s i)
  have "refcnt_le_busy (drop_reference s jb i)"
    using drop(4,7) by (auto simp: refcnt_le_busy_def step_handles buffer_handle_def)
  with drop(6) show ?case by simp
qed auto

lemma cancel_taken_busy_count:
  assumes "cancel_taken s jb a i n = Inr s'"
  shows "busy_count (handles s' h) = busy_count (handles s h)"
  using cancel_taken_shape[OF assms, of h] by auto

lemma record_request_invariant:
  assumes "refcnt_le_busy s" and "busy_room s (n - max i k)" and "i < n"
  shows "refcnt_le_busy (record_request s jb i k) \<and>
         busy_room (record_request s jb i k) (n - max (i + 1) k)"
proof -
  let ?H = "JOB_GET_ORDERED_BUFFER_HANDLE s jb i"
  let ?t = "record_request s jb i k"
  have old: "handles ?t h = handles s h" if "h \<noteq> ?H" for h
    using that by (simp add: step_handles)
  have same: "refcnt (handles ?t h) = refcnt (handles s h)" for h
    by (simp add: step_handles buffer_handle_def)
  have inv: "refcnt (handles s h) \<le> busy_count (handles s h)" for h
    using assms(1) by (simp add: refcnt_le_busy_def)
  have "refcnt (handles ?t h) \<le> busy_count (handles ?t h) \<and>
      unat (busy_count (handles ?t h)) + (n - max (i + 1) k) < 2 ^ 32" for h
  proof (cases "k \<le> i")
    case True
    then have m: "max i k = i" "max (i + 1) k = i + 1" by simp_all
    have room: "unat (busy_count (handles s h)) + 1 + (n - (i + 1)) < 2 ^ 32" for h
      using assms(2)[unfolded busy_room_def m, rule_format, of h] assms(3) by linarith
    show ?thesis
    proof (cases "h = ?H")
      case h: True
      have new: "busy_count (handles ?t ?H) = busy_count (handles s ?H) + 1"
        using True by (simp add: step_handles buffer_handle_def)
      from counted_handle[OF room[of ?H] new] inv[of ?H] same[of ?H] h show ?thesis
        by (simp add: m)
    next
      case False
      from room[of h] have "unat (busy_count (handles s h)) + (n - (i + 1)) < 2 ^ 32"
        by linarith
      with False inv[of h] show ?thesis
        by (simp add: old m)
    qed
  next
    case False
    then have m: "max i k = k" "max (i + 1) k = k" by simp_all
    have "busy_count (handles ?t h) = busy_count (handles s h)"
      using False by (simp add: step_handles buffer_handle_def)
    with assms(2)[unfolded busy_room_def m, rule_format, of h] inv[of h] same[of h]
    show ?thesis
      by (simp add: m)
  qed
  then show ?thesis
    by (simp add: refcnt_le_busy_def busy_room_def)
qed

lemma record_requests_invariant:
  assumes "record_requests s jb a i n k = s'"
    and "refcnt_le_busy s" and "busy_room s (n - max i k)"
  shows "refcnt_le_busy s'"
  using assms
proof (induction rule: record_requests_induct_rel)
  case (park s i)
  from record_request_invariant[OF park(5,6,1)] park(4) show ?case
    by simp
qed auto

lemma submit_invariant:
  assumes "starpu_submit_job_enforce_arbitered_deps s jb buf n = Inr (s', res)"
    and "refcnt_le_busy s" and "busy_room s (n - buf)"
  shows "refcnt_le_busy s'"
  using assms
proof (induction rule: submit_induct_rel)
  case (park s buf a sa k sb)
  have t: "refcnt_le_busy sa \<and> busy_room sa (n - k)"
    using try_acquire_invariant[OF park(2)] park(6,7) by simp
  have "buf \<le> k"
    using park(2) by (rule try_acquire_index_mono)
  then have m: "max buf k = k" by simp
  have "refcnt_le_busy sb"
    using cancel_taken_invariant[OF park(3)] t by simp
  moreover have "busy_room sb (n - max buf k)"
    using t cancel_taken_busy_count[OF park(3)] by (simp add: busy_room_def m)
  ultimately have "refcnt_le_busy (record_requests sb jb a buf n k)"
    by (rule record_requests_invariant[OF refl])
  then show ?case
    by (simp add: park(4))
next
  case (next_group s buf a sa k)
  have "refcnt_le_busy sa \<and> busy_room sa (n - k)"
    using try_acquire_invariant[OF next_group(2)] next_group(7,8) by simp
  then show ?case
    using next_group(6) by simp
next
  case (push s buf a sa k)
  have "refcnt_le_busy sa \<and> busy_room sa (n - k)"
    using try_acquire_invariant[OF push(2)] push(6,7) by simp
  then show ?case
    by (simp add: push(4))
qed

lemma promote_invariant:
  assumes same: "same_state s sm"
    and t: "notify_try_acquire sm jb a nb n = (sa, k, True)"
    and p: "promote sa jb a nb n = Inr (s', res)"
    and inv: "refcnt_le_busy s" and room: "busy_room s n"
  shows "refcnt_le_busy s'"
proof -
  have ja: "jobs sa = jobs sm"
    using notify_try_acquire_frame[OF t] by simp
  note ba = same_jobs[OF ja]
  from promote_after_pass[OF same t p] obtain sb where
    r: "remove_requesters sa jb a nb n = Inr (sb, k)"
    and last: "if k < n
       then (\<exists>res'. starpu_submit_job_enforce_arbitered_deps
                       (log_events [Mutex_unlock a] sb) jb k n = Inr (s', res')) \<and>
            (pushed s' = pushed s \<or> pushed s' = pushed s @ [jb])
       else s' = starpu_push_task jb (log_events [Mutex_unlock a] sb) \<and>
            pushed s' = pushed s @ [jb]"
    by blast
  have dist: "\<forall>m m'. nb \<le> m \<and> m < m' \<and> m' < k \<and> \<not> already_requested sa jb m \<and>
      \<not> already_requested sa jb m' \<longrightarrow>
      JOB_GET_ORDERED_BUFFER_HANDLE sa jb m \<noteq> JOB_GET_ORDERED_BUFFER_HANDLE sa jb m'"
    using notify_try_acquire_distinct[OF t] by (simp add: ba)
  have busy: "busy_count (handles sb h) = busy_count (handles s h)" for h
    using remove_requesters_counts[OF r, of h] notify_try_acquire_counts[OF t, of h]
      same_state_fields(4)[OF same, of h]
    by simp
  have "refcnt (handles sb h) \<le> busy_count (handles sb h)" for h
  proof (cases "\<exists>i. nb \<le> i \<and> i < k \<and> \<not> already_requested sa jb i \<and>
      JOB_GET_ORDERED_BUFFER_HANDLE sa jb i = h")
    case True
    then obtain i where i: "nb \<le> i" "i < k" "\<not> already_requested sa jb i"
      "JOB_GET_ORDERED_BUFFER_HANDLE sa jb i = h"
      by blast
    from remove_requesters_exact[OF r i(1,2,3) dist] i(4)
    have "refcnt (handles sa h) = 1" "1 \<le> busy_count (handles sa h)"
      by (simp_all add: buffer_handle_def)
    with remove_requesters_counts[OF r, of h] show ?thesis
      by simp
  next
    case False
    then have "handles sa h = handles sm h"
      using notify_try_acquire_other_untouched[OF t, of h] by (auto simp: ba)
    with remove_requesters_counts[OF r, of h] same_state_fields(3,4)[OF same, of h] inv
    show ?thesis
      by (simp add: refcnt_le_busy_def)
  qed
  then have ib: "refcnt_le_busy sb"
    by (simp add: refcnt_le_busy_def)
  have "busy_room s (n - k)"
    using room by (rule busy_room_less) simp
  then have rb: "busy_room sb (n - k)"
    using busy by (rule busy_room_same)
  show ?thesis
  proof (cases "k < n")
    case True
    with last obtain res' where "starpu_submit_job_enforce_arbitered_deps
        (log_events [Mutex_unlock a] sb) jb k n = Inr (s', res')"
      by auto
    from submit_invariant[OF this] ib rb show ?thesis
      by simp
  next
    case False
    with last ib show ?thesis by simp
  qed
qed

lemma refcnt_le_busy_same_state:
  "same_state s t \<Longrightarrow> refcnt_le_busy s \<Longrightarrow> refcnt_le_busy t"
  by (simp add: refcnt_le_busy_def same_state_def same_references_def)

lemma remove_requesters_invariant:
  assumes "remove_requesters s jb a i n = Inr (s', k)" and "refcnt_le_busy s"
  shows "refcnt_le_busy s'"
  using assms(2) remove_requesters_counts[OF assms(1)]
  by (simp add: refcnt_le_busy_def)

lemma notify_invariant:
  assumes run: "starpu_notify_arbitered_dependencies s hn = Inr (s', res)"
    and inv: "refcnt_le_busy s"
    and room: "\<forall>r\<in>set (requesters (handles s hn)). busy_room s (nbuffers (jobs s (j r)))"
  shows "refcnt_le_busy s'"
proof -
  from run obtain a where a: "arbiter (handles s hn) = Some a"
    by (auto simp: starpu_notify_arbitered_dependencies_def split: option.splits)
  define s0 where "s0 = log_events [Mutex_lock a] s"
  have e0: "same_state s s0"
    by (simp add: s0_def)
  have scan: "notify_scan s0 a (requesters (handles s hn)) = Inr (s', res)"
    using run a
    by (auto simp: starpu_notify_arbitered_dependencies_def requesters_def s0_def log_events_def
        split: option.splits)
  from notify_scan_first_available[OF scan] show ?thesis
  proof (elim disjE conjE exE)
    assume "same_state s0 s'"
    with e0 have "same_state s s'" by (rule same_state_trans)
    then show ?thesis using inv by (rule refcnt_le_busy_same_state)
  next
    fix before r after sm sa k
    assume h: "requesters (handles s hn) = before @ r # after" "same_state s0 sm"
      "notify_try_acquire sm (j r) a (first_arbiter_buffer s0 (j r) a)
         (nbuffers (jobs s0 (j r))) = (sa, k, True)"
      "promote sa (j r) a (first_arbiter_buffer s0 (j r) a) (nbuffers (jobs s0 (j r)))
         = Inr (s', 0)"
    have e: "same_state s sm"
      using e0 h(2) by (rule same_state_trans)
    have "busy_room s (nbuffers (jobs s0 (j r)))"
      using room h(1) by (simp add: s0_def)
    with promote_invariant[OF e h(3,4) inv] show ?thesis
      by simp
  qed
qed

text \<open>
  C5, as the code has it. As long as no \<open>busy_count\<close> wraps around, the invariant
  \<open>refcnt \<le> busy_count\<close> on every handle is kept by the try-acquire loop of the
  submission, by the loop that cancels what a pass has taken (at submission and in the
  notification), by the loop that records the requesters, by the loop that removes the
  requesters of a promoted job, by a whole submission and by a whole notification.
  The loop of the notification that takes the handles is not in the list: it keeps
  the invariant only together with the cancellation or the promotion that follows it.
\<close>

theorem refcnt_at_most_busy_count:
  "(try_acquire s jb a i n = (st, kt, okt) \<and> refcnt_le_busy s \<and> busy_room s (n - i) \<longrightarrow>
      refcnt_le_busy st) \<and>
   (cancel_taken s jb a i n = Inr sc \<and> refcnt_le_busy s \<longrightarrow> refcnt_le_busy sc) \<and>
   (refcnt_le_busy s \<and> busy_room s (n - max i k) \<longrightarrow>
      refcnt_le_busy (record_requests s jb a i n k)) \<and>
   (remove_requesters s jb a i n = Inr (sm, km) \<and> refcnt_le_busy s \<longrightarrow> refcnt_le_busy sm) \<and>
   (starpu_submit_job_enforce_arbitered_deps s jb i n = Inr (sa, ra) \<and> refcnt_le_busy s \<and>
    busy_room s (n - i) \<longrightarrow> refcnt_le_busy sa) \<and>
   (starpu_notify_arbitered_dependencies s hn = Inr (sb, rb) \<and> refcnt_le_busy s \<and>
    (\<forall>r\<in>set (requesters (handles s hn)). busy_room s (nbuffers (jobs s (j r)))) \<longrightarrow>
      refcnt_le_busy sb)"
  using try_acquire_invariant[of s jb a i n st kt okt] cancel_taken_invariant[of s jb a i n sc]
    record_requests_invariant[OF refl, of s n i k jb a]
    remove_requesters_invariant[of s jb a i n sm km]
    submit_invariant[of s jb i n sa ra] notify_invariant[of s hn sb rb]
  by blast

theorem refcnt_at_most_busy_count_witness:
  "refcnt_le_busy waiting_state \<and> busy_room waiting_state 2 \<and>
   snd (try_acquire waiting_state 10 7 0 2) = (1, False) \<and>
   refcnt_le_busy (fst (try_acquire waiting_state 10 7 0 2)) \<and>
   refcnt_le_busy (record_requests waiting_state 10 7 0 2 1) \<and>
   map_sum id snd (starpu_submit_job_enforce_arbitered_deps waiting_state 10 0 2) = Inr 1 \<and>
   refcnt_le_busy (fst (projr (starpu_submit_job_enforce_arbitered_deps waiting_state 10 0 2))) \<and>
   map_sum id snd (starpu_notify_arbitered_dependencies waiting_state 1) = Inr 0 \<and>
   refcnt_le_busy (fst (projr (starpu_notify_arbitered_dependencies waiting_state 1))) \<and>
   \<not> isl (cancel_taken waiting_state 11 7 0 1) \<and>
   refcnt_le_busy (projr (cancel_taken waiting_state 11 7 0 1)) \<and>
   map_sum id snd (remove_requesters waiting_state 11 7 0 1) = Inr 1 \<and>
   refcnt_le_busy (fst (projr (remove_requesters waiting_state 11 7 0 1)))"
proof -
  have inv: "refcnt_le_busy waiting_state"
    by (simp add: refcnt_le_busy_def waiting_state_def fresh_handle_def)
  have room: "busy_room waiting_state m" if "m \<le> 2" for m
    using that by (simp add: busy_room_def waiting_state_def fresh_handle_def)
  have lists: "\<forall>r\<in>set (requesters (handles waiting_state 1)).
      busy_room waiting_state (nbuffers (jobs waiting_state (j r)))"
    by (simp add: requesters_def busy_room_def waiting_state_def fresh_handle_def
        requester_new_def example_jobs_def job_of_buffers_def)
  have runs: "try_acquire waiting_state 10 7 0 2 =
      (fst (try_acquire waiting_state 10 7 0 2), 1, False)"
    "starpu_submit_job_enforce_arbitered_deps waiting_state 10 0 2 =
      Inr (fst (projr (starpu_submit_job_enforce_arbitered_deps waiting_state 10 0 2)), 1)"
    "starpu_notify_arbitered_dependencies waiting_state 1 =
      Inr (fst (projr (starpu_notify_arbitered_dependencies waiting_state 1)), 0)"
    "cancel_taken waiting_state 11 7 0 1 = Inr (projr (cancel_taken waiting_state 11 7 0 1))"
    "remove_requesters waiting_state 11 7 0 1 =
      Inr (fst (projr (remove_requesters waiting_state 11 7 0 1)), 1)"
    by (simp_all add: run_simps)
  note loops = refcnt_at_most_busy_count[where s = waiting_state and jb = 11 and a = 7
      and i = 0 and n = 1 and k = 1 and hn = 1
      and st = "fst (try_acquire waiting_state 11 7 0 1)" and kt = 0 and okt = False
      and sc = "projr (cancel_taken waiting_state 11 7 0 1)"
      and sm = "fst (projr (remove_requesters waiting_state 11 7 0 1))" and km = 1
      and sa = "fst (projr (starpu_submit_job_enforce_arbitered_deps waiting_state 11 0 1))"
      and ra = 1
      and sb = "fst (projr (starpu_notify_arbitered_dependencies waiting_state 1))"
      and rb = 0]
  note inst = refcnt_at_most_busy_count[where s = waiting_state and jb = 10 and a = 7
      and i = 0 and n = 2 and k = 1 and hn = 1
      and st = "fst (try_acquire waiting_state 10 7 0 2)" and kt = 1 and okt = False
      and sa = "fst (projr (starpu_submit_job_enforce_arbitered_deps waiting_state 10 0 2))"
      and ra = 1
      and sb = "fst (projr (starpu_notify_arbitered_dependencies waiting_state 1))"
      and rb = 0]
  have "refcnt_le_busy (fst (try_acquire waiting_state 10 7 0 2))"
    using inst runs(1) inv room[of 2] by simp
  moreover have "refcnt_le_busy (record_requests waiting_state 10 7 0 2 1)"
    using inst inv room[of 1] by simp
  moreover have "refcnt_le_busy
      (fst (projr (starpu_submit_job_enforce_arbitered_deps waiting_state 10 0 2)))"
    using inst runs(2) inv room[of 2] by simp
  moreover have "refcnt_le_busy
      (fst (projr (starpu_notify_arbitered_dependencies waiting_state 1)))"
    using inst runs(3) inv lists by blast
  moreover have "refcnt_le_busy (projr (cancel_taken waiting_state 11 7 0 1))"
    using loops runs(4) inv by blast
  moreover have "refcnt_le_busy (fst (projr (remove_requesters waiting_state 11 7 0 1)))"
    using loops runs(5) inv by blast
  ultimately show ?thesis
    using inv room[of 2] by (simp add: run_simps)
qed

text \<open>
  C5, as it is stated, fails in two ways. A submission takes handle 1 of
  \<open>overflow_state\<close>, whose \<open>busy_count\<close> is the largest value of the type: the
  increment wraps around to 0 while \<open>refcnt\<close> becomes 1. And the loop of the
  notification that takes the handles takes handle 1 of \<open>uncounted_state\<close> without
  counting it: \<open>refcnt\<close> becomes 1 while \<open>busy_count\<close> stays 0; the whole
  notification then stops on the assertion that \<open>busy_count\<close> is at least 1.
\<close>

theorem refcnt_above_busy_count_counterexample:
  "refcnt_le_busy overflow_state \<and>
   map_sum id snd (starpu_submit_job_enforce_arbitered_deps overflow_state 12 0 1) = Inr 0 \<and>
   refcnt (handles (fst (projr
     (starpu_submit_job_enforce_arbitered_deps overflow_state 12 0 1))) 1) = 1 \<and>
   busy_count (handles (fst (projr
     (starpu_submit_job_enforce_arbitered_deps overflow_state 12 0 1))) 1) = 0 \<and>
   \<not> refcnt_le_busy (fst (projr
     (starpu_submit_job_enforce_arbitered_deps overflow_state 12 0 1))) \<and>
   refcnt_le_busy uncounted_state \<and>
   snd (notify_try_acquire uncounted_state 12 7 0 1) = (1, True) \<and>
   refcnt (handles (fst (notify_try_acquire uncounted_state 12 7 0 1)) 1) = 1 \<and>
   busy_count (handles (fst (notify_try_acquire uncounted_state 12 7 0 1)) 1) = 0 \<and>
   \<not> refcnt_le_busy (fst (notify_try_acquire uncounted_state 12 7 0 1)) \<and>
   starpu_notify_arbitered_dependencies uncounted_state 1 = Inl Assertion_failed"
proof -
  have a: "refcnt (handles (fst (projr
     (starpu_submit_job_enforce_arbitered_deps overflow_state 12 0 1))) 1) = 1"
    "busy_count (handles (fst (projr
     (starpu_submit_job_enforce_arbitered_deps overflow_state 12 0 1))) 1) = 0"
    "refcnt (handles (fst (notify_try_acquire uncounted_state 12 7 0 1)) 1) = 1"
    "busy_count (handles (fst (notify_try_acquire uncounted_state 12 7 0 1)) 1) = 0"
    by (simp_all add: run_simps)
  have "\<not> refcnt_le_busy (fst (projr
     (starpu_submit_job_enforce_arbitered_deps overflow_state 12 0 1)))"
    "\<not> refcnt_le_busy (fst (notify_try_acquire uncounted_state 12 7 0 1))"
  proof -
    have "\<not> (1 :: 32 word) \<le> 0" by simp
    with a show "\<not> refcnt_le_busy (fst (projr
        (starpu_submit_job_enforce_arbitered_deps overflow_state 12 0 1)))"
      and "\<not> refcnt_le_busy (fst (notify_try_acquire uncounted_state 12 7 0 1))"
      unfolding refcnt_le_busy_def by metis+
  qed
  moreover have "refcnt_le_busy overflow_state" "refcnt_le_busy uncounted_state"
    by (simp_all add: refcnt_le_busy_def overflow_state_def uncounted_state_def fresh_handle_def)
  moreover have
    "map_sum id snd (starpu_submit_job_enforce_arbitered_deps overflow_state 12 0 1) = Inr 0"
    "snd (notify_try_acquire uncounted_state 12 7 0 1) = (1, True)"
    "starpu_notify_arbitered_dependencies uncounted_state 1 = Inl Assertion_failed"
    by (simp_all add: run_simps)
  ultimately show ?thesis
    using a by simp
qed

section \<open>The list of requests of a handle on which a job is parked\<close>

lemma submit_parks_group:
  assumes a: "arbiter (buffer_handle s jb buf) = Some a"
    and t: "try_acquire (log_events [Mutex_lock a] s) jb a buf n = (sa, k, False)"
    and sub: "starpu_submit_job_enforce_arbitered_deps s jb buf n = Inr (s', res)"
    and i: "buf \<le> i" "i < n"
    and grp: "\<forall>m. buf \<le> m \<and> m \<le> i \<longrightarrow> arbiter (buffer_handle s jb m) = Some a"
  shows "res = 1 \<and>
    (\<exists>rs. rs \<noteq> [] \<and> (\<forall>r\<in>set rs. j r = jb) \<and>
       arbitered_req_list (handles s' (JOB_GET_ORDERED_BUFFER_HANDLE s jb i)) =
         Some (rs @ requesters (handles s (JOB_GET_ORDERED_BUFFER_HANDLE s jb i))))"
proof -
  let ?h = "JOB_GET_ORDERED_BUFFER_HANDLE s jb i"
  from a t sub obtain sb where c: "cancel_taken sa jb a buf k = Inr sb"
    and s': "s' = log_events [Mutex_unlock a] (record_requests sb jb a buf n k)"
    and res: "res = 1"
    by (subst (asm) starpu_submit_job_enforce_arbitered_deps.simps) (auto split: sum.splits)
  have j1: "jobs sa = jobs s"
    using try_acquire_frame[OF t] by simp
  have j2: "jobs sb = jobs s"
    using cancel_taken_frame[OF c] j1 by simp
  have hc: "handles_change s sb"
    using try_acquire_change[OF t] cancel_taken_change[OF c]
    by (auto intro: handles_change_trans)
  have lists: "arbitered_req_list (handles sb h') = arbitered_req_list (handles s h')" for h'
    using try_acquire_lists[OF t] cancel_taken_lists[OF c] by simp
  have "\<forall>m. buf \<le> m \<and> m \<le> i \<longrightarrow> arbiter (buffer_handle sb jb m) = Some a"
    using grp handles_change_arbiter[OF hc]
    by (simp add: buffer_handle_def same_jobs(1)[OF j2])
  with record_requests_group[OF refl, of buf i n sb jb a k] i
  obtain rs where rs: "rs \<noteq> []" "\<forall>r\<in>set rs. j r = jb"
    "requesters (handles (record_requests sb jb a buf n k) ?h) = rs @ requesters (handles sb ?h)"
    by (auto simp: same_jobs(1)[OF j2])
  have "requesters (handles sb ?h) = requesters (handles s ?h)"
    by (simp add: requesters_def lists)
  with rs have "requesters (handles s' ?h) = rs @ requesters (handles s ?h)"
    by (simp add: s')
  with rs(1) have "arbitered_req_list (handles s' ?h) = Some (rs @ requesters (handles s ?h))"
    using requesters_nonempty[of "handles s' ?h"] by simp
  with rs res show ?thesis
    by blast
qed

text \<open>
  C10. The list pointer of a handle is never the address of a list with no element:
  if that holds of every handle before a submission or a notification, it holds of
  every handle after it, so that the pointer is NULL exactly when no requester is
  recorded on the handle. And a submission whose pass fails leaves every handle of
  the group (the buffers from \<open>buf\<close> on, as long as they are of the arbiter) with a
  list that is allocated and whose head carries the job, whether the handle had a
  list before or not.
\<close>

theorem requester_list_never_empty:
  assumes "\<forall>h. arbitered_req_list (handles s h) \<noteq> Some []"
  shows "(starpu_submit_job_enforce_arbitered_deps s jb buf n = Inr (sa, ra) \<longrightarrow>
            (\<forall>h. arbitered_req_list (handles sa h) \<noteq> Some [])) \<and>
         (starpu_notify_arbitered_dependencies s hn = Inr (sb, rb) \<longrightarrow>
            (\<forall>h. arbitered_req_list (handles sb h) \<noteq> Some [])) \<and>
         (arbiter (buffer_handle s jb buf) = Some a \<and>
          snd (snd (try_acquire (log_events [Mutex_lock a] s) jb a buf n)) = False \<and>
          starpu_submit_job_enforce_arbitered_deps s jb buf n = Inr (sa, ra) \<and>
          buf \<le> i \<and> i < n \<and>
          (\<forall>m. buf \<le> m \<and> m \<le> i \<longrightarrow> arbiter (buffer_handle s jb m) = Some a) \<longrightarrow>
            ra = 1 \<and>
            (\<exists>r rs. arbitered_req_list (handles sa (JOB_GET_ORDERED_BUFFER_HANDLE s jb i)) =
                       Some (r # rs) \<and> j r = jb))"
proof (intro conjI)
  show "starpu_submit_job_enforce_arbitered_deps s jb buf n = Inr (sa, ra) \<longrightarrow>
      (\<forall>h. arbitered_req_list (handles sa h) \<noteq> Some [])"
    using assms submit_change[of s jb buf n sa ra]
    by (auto simp: handles_change_def dest: handle_changes_list)
  show "starpu_notify_arbitered_dependencies s hn = Inr (sb, rb) \<longrightarrow>
      (\<forall>h. arbitered_req_list (handles sb h) \<noteq> Some [])"
    using assms notify_change[of s hn sb rb]
    by (auto simp: handles_change_def dest: handle_changes_list)
  show "arbiter (buffer_handle s jb buf) = Some a \<and>
      snd (snd (try_acquire (log_events [Mutex_lock a] s) jb a buf n)) = False \<and>
      starpu_submit_job_enforce_arbitered_deps s jb buf n = Inr (sa, ra) \<and>
      buf \<le> i \<and> i < n \<and>
      (\<forall>m. buf \<le> m \<and> m \<le> i \<longrightarrow> arbiter (buffer_handle s jb m) = Some a) \<longrightarrow>
        ra = 1 \<and>
        (\<exists>r rs. arbitered_req_list (handles sa (JOB_GET_ORDERED_BUFFER_HANDLE s jb i)) =
                   Some (r # rs) \<and> j r = jb)"
  proof (rule impI, elim conjE)
    assume a: "arbiter (buffer_handle s jb buf) = Some a"
      and f: "snd (snd (try_acquire (log_events [Mutex_lock a] s) jb a buf n)) = False"
      and sub: "starpu_submit_job_enforce_arbitered_deps s jb buf n = Inr (sa, ra)"
      and i: "buf \<le> i" "i < n"
      and grp: "\<forall>m. buf \<le> m \<and> m \<le> i \<longrightarrow> arbiter (buffer_handle s jb m) = Some a"
    obtain st k where t: "try_acquire (log_events [Mutex_lock a] s) jb a buf n = (st, k, False)"
      using f by (cases "try_acquire (log_events [Mutex_lock a] s) jb a buf n") auto
    from submit_parks_group[OF a t sub i grp] obtain rs where
      rs: "ra = 1" "rs \<noteq> []" "\<forall>r\<in>set rs. j r = jb"
        "arbitered_req_list (handles sa (JOB_GET_ORDERED_BUFFER_HANDLE s jb i)) =
           Some (rs @ requesters (handles s (JOB_GET_ORDERED_BUFFER_HANDLE s jb i)))"
      by blast
    from rs(2) obtain r rs' where "rs = r # rs'"
      by (cases rs) auto
    with rs show "ra = 1 \<and>
        (\<exists>r rs. arbitered_req_list (handles sa (JOB_GET_ORDERED_BUFFER_HANDLE s jb i)) =
                   Some (r # rs) \<and> j r = jb)"
      by auto
  qed
qed

theorem requester_list_never_empty_witness:
  "(\<forall>h. arbitered_req_list (handles waiting_state h) \<noteq> Some []) \<and>
   map_sum id snd (starpu_submit_job_enforce_arbitered_deps waiting_state 11 0 1) = Inr 1 \<and>
   map_option (map j)
     (arbitered_req_list
       (handles (fst (projr (starpu_submit_job_enforce_arbitered_deps waiting_state 11 0 1))) 2))
     = Some [11, 11] \<and>
   map_sum id snd (starpu_notify_arbitered_dependencies waiting_state 1) = Inr 0 \<and>
   arbitered_req_list
     (handles (fst (projr (starpu_notify_arbitered_dependencies waiting_state 1))) 1) = None \<and>
   (\<forall>h. arbitered_req_list (handles taken_state h) = None) \<and>
   snd (snd (try_acquire (log_events [Mutex_lock 7] taken_state) 10 7 0 2)) = False \<and>
   map_sum id snd (starpu_submit_job_enforce_arbitered_deps taken_state 10 0 2) = Inr 1 \<and>
   arbitered_req_list
     (handles (fst (projr (starpu_submit_job_enforce_arbitered_deps taken_state 10 0 2))) 1)
     = Some [requester_new 2 10 0] \<and>
   arbitered_req_list
     (handles (fst (projr (starpu_submit_job_enforce_arbitered_deps taken_state 10 0 2))) 2)
     = Some [requester_new 2 10 1]"
  using requester_list_never_empty[where s = waiting_state
      and jb = 11 and buf = 0 and n = 1 and hn = 1 and a = 7 and i = 0
      and sa = "fst (projr (starpu_submit_job_enforce_arbitered_deps waiting_state 11 0 1))"
      and ra = "snd (projr (starpu_submit_job_enforce_arbitered_deps waiting_state 11 0 1))"
      and sb = "fst (projr (starpu_notify_arbitered_dependencies waiting_state 1))"
      and rb = "snd (projr (starpu_notify_arbitered_dependencies waiting_state 1))"]
    requester_list_never_empty[where s = taken_state
      and jb = 10 and buf = 0 and n = 2 and hn = 1 and a = 7 and i = 1
      and sa = "fst (projr (starpu_submit_job_enforce_arbitered_deps taken_state 10 0 2))"
      and ra = "snd (projr (starpu_submit_job_enforce_arbitered_deps taken_state 10 0 2))"
      and sb = "fst (projr (starpu_notify_arbitered_dependencies taken_state 1))"
      and rb = "snd (projr (starpu_notify_arbitered_dependencies taken_state 1))"]
    requester_list_never_empty[where s = taken_state
      and jb = 10 and buf = 0 and n = 2 and hn = 1 and a = 7 and i = 0
      and sa = "fst (projr (starpu_submit_job_enforce_arbitered_deps taken_state 10 0 2))"
      and ra = "snd (projr (starpu_submit_job_enforce_arbitered_deps taken_state 10 0 2))"
      and sb = "fst (projr (starpu_notify_arbitered_dependencies taken_state 1))"
      and rb = "snd (projr (starpu_notify_arbitered_dependencies taken_state 1))"]
  by (simp add: run_simps)

section \<open>The group of a job and the requester that a promotion erases\<close>












end
